theory Spec2Isabelle
  imports Main "HOL-Library.AList"
begin

section \<open>Data model\<close>

text \<open>
  The pool engine of \<^verbatim>\<open>src/index.ts\<close> works on three kinds of values, which differ in how
  object identity matters:

  \<^item> the input of \<^verbatim>\<open>write\<close> is a graph of JavaScript objects. The normalizer detects cycles
    by the raw identity of the traversed node (\<^verbatim>\<open>visited.has(value)\<close>), so the input is
    modelled with an explicit heap: a value is a scalar or the handle of a heap node;
  \<^item> what the normalizer stores (\<^verbatim>\<open>PoolAny\<close>) is freshly built by \<^verbatim>\<open>arrayMap\<close> and
    \<^verbatim>\<open>objectMap\<close>, frozen and never shared, so it is a tree;
  \<^item> what the resolver returns may be cyclic: the accumulator object of a ref is entered in
    the \<^verbatim>\<open>stack\<close> map before its fields are filled in and is handed out again on every later
    encounter. The result is modelled as a value that may point (\<open>RShared ref\<close>) into the
    arena of accumulator objects, which is the \<^verbatim>\<open>stack\<close> map itself.

  Objects are association lists in \<^verbatim>\<open>Object.entries\<close> order; \<^verbatim>\<open>acc[key] = v\<close> is
  \<^const>\<open>AList.update\<close> (an existing key keeps its place, a new key goes last).
  JavaScript numbers are left abstract (type \<open>'n\<close>); the one place where the code
  inspects a number, the template literal of \<^verbatim>\<open>identify\<close>, takes the rendering of a number
  as the parameter \<open>tostr\<close>.
\<close>

datatype 'n scalar = SNull | SUndefined | SBool bool | SNum 'n | SStr string

datatype 'n JSONValue = JScalar "'n scalar" | JNode nat

datatype 'n JSONNode =
    JArray "'n JSONValue list"
  | JObject "(string \<times> 'n JSONValue) list"

type_synonym 'n heap = "'n JSONNode list"

text \<open>
  Every handle of a JavaScript program points to an object. The lookup is made total by
  reading a handle outside the heap as an object without fields.
\<close>

definition node_at :: "'n heap \<Rightarrow> nat \<Rightarrow> 'n JSONNode" where
  "node_at h a = (if a < length h then h ! a else JObject [])"

datatype 'n PoolAny =
    PScalar "'n scalar"
  | PArray "'n PoolAny list"
  | PObject "(string \<times> 'n PoolAny) list"

record 'n PoolObject =
  updatedAt :: nat
  pool_fields :: "(string \<times> 'n PoolAny) list"

datatype 'n Resolved =
    RScalar "'n scalar"
  | RArray "'n Resolved list"
  | RObject "(string \<times> 'n Resolved) list"
  | RShared string

text \<open>
  The backing store is the default \<^verbatim>\<open>Map\<close>: finitely many entries, \<^verbatim>\<open>get\<close> is
  \<^const>\<open>map_of\<close> and \<^verbatim>\<open>set\<close> is \<^const>\<open>AList.update\<close>. A listener is known by a number;
  the registry maps a ref to its listeners in insertion order.
\<close>

type_synonym 'n backing = "(string \<times> 'n PoolObject) list"
type_synonym 'n stack = "string \<rightharpoonup> (string \<times> 'n Resolved) list"

record 'n ObjectPool =
  generation :: nat
  listeners :: "string \<rightharpoonup> nat list"
  backing :: "'n backing"

definition REF_LABEL :: string where
  "REF_LABEL = ''__ref''"

definition TYPE_LABEL :: string where
  "TYPE_LABEL = ''__type''"

definition time :: "'n ObjectPool \<Rightarrow> nat" where
  "time pool = generation pool"

text \<open>The constructor with its defaults: \<^verbatim>\<open>new ObjectPool()\<close>.\<close>

definition new_pool :: "'n ObjectPool" where
  "new_pool = \<lparr>generation = 0, listeners = Map.empty, backing = []\<rparr>"

datatype error = CyclicReference

section \<open>Identity\<close>

definition identify :: "('n \<Rightarrow> string) \<Rightarrow> (string \<times> 'n JSONValue) list \<Rightarrow> string option" where
  "identify tostr obj =
     (case map_of obj TYPE_LABEL of
        Some (JScalar (SStr ty)) \<Rightarrow>
          (case map_of obj ''id'' of
             Some (JScalar (SStr i)) \<Rightarrow> Some (ty @ '':'' @ i)
           | Some (JScalar (SNum n)) \<Rightarrow> Some (ty @ '':'' @ tostr n)
           | _ \<Rightarrow> None)
      | _ \<Rightarrow> None)"

text \<open>
  The rendering of a natural number in decimal, as the template literal prints a
  non-negative integer below \<open>10\<^sup>2\<^sup>1\<close>. It instantiates \<open>tostr\<close> in the concrete runs
  below; the general theorems hold for every \<open>tostr\<close>.
\<close>

fun nat_str :: "nat \<Rightarrow> string" where
  "nat_str n =
     (if n < 10 then [''0123456789'' ! n]
      else nat_str (n div 10) @ [''0123456789'' ! (n mod 10)])"

section \<open>Read path\<close>

text \<open>\<^verbatim>\<open>value[REF_LABEL]\<close> when it is a string.\<close>

definition ref_of :: "(string \<times> 'n PoolAny) list \<Rightarrow> string option" where
  "ref_of kvs = (case map_of kvs REF_LABEL of Some (PScalar (SStr r)) \<Rightarrow> Some r | _ \<Rightarrow> None)"

text \<open>\<^verbatim>\<open>acc[key] = y\<close> on the accumulator object that the stack holds for \<open>ref\<close>.\<close>

definition assign :: "string \<Rightarrow> string \<Rightarrow> 'n Resolved \<Rightarrow> 'n stack \<Rightarrow> 'n stack" where
  "assign ref key y st =
     st(ref \<mapsto> AList.update key y (case st ref of Some acc \<Rightarrow> acc | None \<Rightarrow> []))"

text \<open>
  \<open>resolveArray\<close> is \<^verbatim>\<open>value.map(item => this.resolveValue(item, stack))\<close>,
  \<open>resolveObject\<close> is \<^verbatim>\<open>objectMap(value, item => this.resolveValue(item, stack))\<close> with its
  accumulator, and \<open>resolveFields\<close> is the \<^verbatim>\<open>for\<close> loop of \<^verbatim>\<open>resolvePoolObject\<close>. Each
  returns the stack as the calls have left it.
\<close>

function
  resolveValue :: "'n backing \<Rightarrow> 'n PoolAny \<Rightarrow> 'n stack \<Rightarrow> 'n Resolved \<times> 'n stack" and
  resolveArray :: "'n backing \<Rightarrow> 'n PoolAny list \<Rightarrow> 'n stack \<Rightarrow> 'n Resolved list \<times> 'n stack" and
  resolveObject :: "'n backing \<Rightarrow> (string \<times> 'n PoolAny) list \<Rightarrow> (string \<times> 'n Resolved) list
     \<Rightarrow> 'n stack \<Rightarrow> (string \<times> 'n Resolved) list \<times> 'n stack" and
  resolvePoolObject :: "'n backing \<Rightarrow> string \<Rightarrow> 'n stack \<Rightarrow> 'n Resolved \<times> 'n stack" and
  resolveFields :: "'n backing \<Rightarrow> string \<Rightarrow> (string \<times> 'n PoolAny) list \<Rightarrow> 'n stack \<Rightarrow> 'n stack"
where
  "resolveValue b (PScalar s) st = (RScalar s, st)"
| "resolveValue b (PArray xs) st =
     (case resolveArray b xs st of (ys, st') \<Rightarrow> (RArray ys, st'))"
| "resolveValue b (PObject kvs) st =
     (case ref_of kvs of
        Some ref \<Rightarrow>
          (case resolvePoolObject b ref st of (match, st') \<Rightarrow>
             if match \<noteq> RScalar SNull then (match, st')
             else (case resolveObject b kvs [] st' of (acc, st'') \<Rightarrow> (RObject acc, st'')))
      | None \<Rightarrow> (case resolveObject b kvs [] st of (acc, st') \<Rightarrow> (RObject acc, st')))"
| "resolveArray b [] st = ([], st)"
| "resolveArray b (x # xs) st =
     (case resolveValue b x st of (y, st') \<Rightarrow>
        (case resolveArray b xs st' of (ys, st'') \<Rightarrow> (y # ys, st'')))"
| "resolveObject b [] acc st = (acc, st)"
| "resolveObject b ((k, v) # kvs) acc st =
     (case resolveValue b v st of (y, st') \<Rightarrow> resolveObject b kvs (AList.update k y acc) st')"
| "resolvePoolObject b ref st =
     (if st ref \<noteq> None then (RShared ref, st)
      else (case map_of b ref of
              None \<Rightarrow> (RScalar SNull, st)
            | Some poolObject \<Rightarrow>
                (RShared ref, resolveFields b ref (pool_fields poolObject) (st(ref \<mapsto> [])))))"
| "resolveFields b ref [] st = st"
| "resolveFields b ref ((k, item) # kvs) st =
     (case resolveValue b item st of (y, st') \<Rightarrow> resolveFields b ref kvs (assign ref k y st'))"
  by pat_completeness auto

text \<open>\<^verbatim>\<open>read\<close> returns the root value together with the arena it points into.\<close>

definition read :: "'n ObjectPool \<Rightarrow> string \<Rightarrow> 'n Resolved \<times> 'n stack" where
  "read pool ref = resolvePoolObject (backing pool) ref Map.empty"

section \<open>Write path\<close>

text \<open>
  The state of one \<^verbatim>\<open>write\<close> call: the set of visited input nodes, the refs touched so far
  (a \<^verbatim>\<open>Set\<close>, iterated in insertion order) and the backing store. A throw leaves the state
  as it is at that moment, so every function returns the state beside its result.
\<close>

record 'n walk =
  visited :: "nat set"
  references :: "string list"
  store :: "'n backing"

definition set_add :: "'a \<Rightarrow> 'a list \<Rightarrow> 'a list" where
  "set_add x xs = (if x \<in> set xs then xs else xs @ [x])"

text \<open>The object spread \<^verbatim>\<open>{...base, ...new}\<close>.\<close>

definition spread :: "('k \<times> 'v) list \<Rightarrow> ('k \<times> 'v) list \<Rightarrow> ('k \<times> 'v) list" where
  "spread base new = fold (\<lambda>(k, v). AList.update k v) new base"

definition PoolReference :: "string \<Rightarrow> 'n PoolAny" where
  "PoolReference ref = PObject [(REF_LABEL, PScalar (SStr ref))]"

function
  updateValue :: "('n \<Rightarrow> string) \<Rightarrow> 'n heap \<Rightarrow> nat \<Rightarrow> 'n JSONValue \<Rightarrow> 'n walk
     \<Rightarrow> (error + 'n PoolAny) \<times> 'n walk" and
  updateArray :: "('n \<Rightarrow> string) \<Rightarrow> 'n heap \<Rightarrow> nat \<Rightarrow> 'n JSONValue list \<Rightarrow> 'n walk
     \<Rightarrow> (error + 'n PoolAny list) \<times> 'n walk" and
  updateObject :: "('n \<Rightarrow> string) \<Rightarrow> 'n heap \<Rightarrow> nat \<Rightarrow> (string \<times> 'n JSONValue) list
     \<Rightarrow> (string \<times> 'n PoolAny) list \<Rightarrow> 'n walk
     \<Rightarrow> (error + (string \<times> 'n PoolAny) list) \<times> 'n walk" and
  updatePoolObject :: "('n \<Rightarrow> string) \<Rightarrow> 'n heap \<Rightarrow> nat \<Rightarrow> (string \<times> 'n JSONValue) list
     \<Rightarrow> string \<Rightarrow> 'n walk \<Rightarrow> (error + 'n PoolAny) \<times> 'n walk"
where
  "updateValue tostr h t (JScalar s) w = (Inr (PScalar s), w)"
| "updateValue tostr h t (JNode a) w =
     (if a \<in> visited w then (Inl CyclicReference, w)
      else
        (case node_at h a of
           JArray xs \<Rightarrow>
             (case updateArray tostr h t xs (w\<lparr>visited := insert a (visited w)\<rparr>) of
                (Inl e, w') \<Rightarrow> (Inl e, w')
              | (Inr ys, w') \<Rightarrow> (Inr (PArray ys), w'))
         | JObject kvs \<Rightarrow>
             (case identify tostr kvs of
                Some ref \<Rightarrow> updatePoolObject tostr h t kvs ref (w\<lparr>visited := insert a (visited w)\<rparr>)
              | None \<Rightarrow>
                  (case updateObject tostr h t kvs [] (w\<lparr>visited := insert a (visited w)\<rparr>) of
                     (Inl e, w') \<Rightarrow> (Inl e, w')
                   | (Inr acc, w') \<Rightarrow> (Inr (PObject acc), w')))))"
| "updateArray tostr h t [] w = (Inr [], w)"
| "updateArray tostr h t (x # xs) w =
     (case updateValue tostr h t x w of
        (Inl e, w') \<Rightarrow> (Inl e, w')
      | (Inr y, w') \<Rightarrow>
          (case updateArray tostr h t xs w' of
             (Inl e, w'') \<Rightarrow> (Inl e, w'')
           | (Inr ys, w'') \<Rightarrow> (Inr (y # ys), w'')))"
| "updateObject tostr h t [] acc w = (Inr acc, w)"
| "updateObject tostr h t ((k, v) # kvs) acc w =
     (case updateValue tostr h t v w of
        (Inl e, w') \<Rightarrow> (Inl e, w')
      | (Inr y, w') \<Rightarrow> updateObject tostr h t kvs (AList.update k y acc) w')"
| "updatePoolObject tostr h t data ref w =
     (case updateObject tostr h t data [] (w\<lparr>references := set_add ref (references w)\<rparr>) of
        (Inl e, w') \<Rightarrow> (Inl e, w')
      | (Inr new, w') \<Rightarrow>
          (Inr (PoolReference ref),
           w'\<lparr>store := AList.update ref
               \<lparr>updatedAt = t,
                pool_fields = spread (case map_of (store w) ref of
                                       None \<Rightarrow> [] | Some existing \<Rightarrow> pool_fields existing) new\<rparr>
               (store w')\<rparr>))"
  by pat_completeness auto

text \<open>The loop \<^verbatim>\<open>for (const item of items) this.updateValue(item, visited, references)\<close>.\<close>

primrec updateItems :: "('n \<Rightarrow> string) \<Rightarrow> 'n heap \<Rightarrow> nat \<Rightarrow> 'n JSONValue list \<Rightarrow> 'n walk
    \<Rightarrow> error option \<times> 'n walk" where
  "updateItems tostr h t [] w = (None, w)"
| "updateItems tostr h t (item # items) w =
     (case updateValue tostr h t item w of
        (Inl e, w') \<Rightarrow> (Some e, w')
      | (Inr y, w') \<Rightarrow> updateItems tostr h t items w')"

text \<open>The refs that a batch touches: the set \<^verbatim>\<open>references\<close> as the loop leaves it.\<close>

definition touched :: "('n \<Rightarrow> string) \<Rightarrow> 'n heap \<Rightarrow> 'n JSONValue list \<Rightarrow> 'n ObjectPool
    \<Rightarrow> string list" where
  "touched tostr h items pool =
     references (snd (updateItems tostr h (time pool) items
                        \<lparr>visited = {}, references = [], store = backing pool\<rparr>))"

section \<open>Notification\<close>

text \<open>
  What a notification pass does is recorded as a trace: \<open>Resolve ref\<close> when \<^verbatim>\<open>notify\<close> calls
  \<^verbatim>\<open>resolvePoolObject\<close> for a touched ref, \<open>Invoke fn value\<close> when it calls a listener.
\<close>

datatype 'n event = Resolve string | Invoke nat "'n Resolved"

fun notify_loop :: "'n backing \<Rightarrow> (string \<rightharpoonup> nat list) \<Rightarrow> string list \<Rightarrow> 'n stack
    \<Rightarrow> 'n event list \<times> 'n stack" where
  "notify_loop b ls [] acc = ([], acc)"
| "notify_loop b ls (ref # refs) acc =
     (case ls ref of
        None \<Rightarrow> notify_loop b ls refs acc
      | Some fns \<Rightarrow>
          if fns = [] then notify_loop b ls refs acc
          else
            (case resolvePoolObject b ref acc of (val, acc') \<Rightarrow>
               if val = RScalar SNull
               then (case notify_loop b ls refs acc' of (evs, acc'') \<Rightarrow> (Resolve ref # evs, acc''))
               else (case notify_loop b ls refs acc' of (evs, acc'') \<Rightarrow>
                       (Resolve ref # map (\<lambda>fn. Invoke fn val) fns @ evs, acc''))))"

text \<open>
  What the specification expects of a pass for one touched ref: nothing when the ref has no
  listener; otherwise one resolution, followed by one call of each listener with the
  resolved entity unless the ref is missing from the store.
\<close>

definition listened :: "(string \<rightharpoonup> nat list) \<Rightarrow> string \<Rightarrow> bool" where
  "listened ls ref = (case ls ref of None \<Rightarrow> False | Some fns \<Rightarrow> fns \<noteq> [])"

definition expected_events :: "'n backing \<Rightarrow> (string \<rightharpoonup> nat list) \<Rightarrow> string \<Rightarrow> 'n event list" where
  "expected_events b ls ref =
     (case ls ref of
        None \<Rightarrow> []
      | Some fns \<Rightarrow>
          if fns = [] then []
          else Resolve ref #
               (if map_of b ref = None then [] else map (\<lambda>fn. Invoke fn (RShared ref)) fns))"

definition notify :: "'n ObjectPool \<Rightarrow> string list \<Rightarrow> 'n event list" where
  "notify pool refs = fst (notify_loop (backing pool) (listeners pool) refs Map.empty)"

text \<open>
  \<^verbatim>\<open>write\<close>, named \<open>write_batch\<close> here: it returns what was thrown (if anything), the
  trace of the notification pass and the pool as the call leaves it.
\<close>

definition write_batch :: "('n \<Rightarrow> string) \<Rightarrow> 'n heap \<Rightarrow> 'n JSONValue list \<Rightarrow> 'n ObjectPool
    \<Rightarrow> error option \<times> 'n event list \<times> 'n ObjectPool" where
  "write_batch tostr h items pool =
     (case updateItems tostr h (time pool) items
             \<lparr>visited = {}, references = [], store = backing pool\<rparr> of
        (Some e, w) \<Rightarrow> (Some e, [], pool\<lparr>backing := store w\<rparr>)
      | (None, w) \<Rightarrow>
          (let pool' = pool\<lparr>generation := generation pool + 1, backing := store w\<rparr>
           in (None, notify pool' (references w), pool')))"

section \<open>Paths through the input graph\<close>

text \<open>
  The children of a value are the elements of the array or the field values of the object
  it points to, in the order in which the normalizer descends into them. A path is a list
  of child positions; the first position of a batch path selects the item.
\<close>

fun children :: "'n heap \<Rightarrow> 'n JSONValue \<Rightarrow> 'n JSONValue list" where
  "children h (JScalar s) = []"
| "children h (JNode a) = (case node_at h a of JArray xs \<Rightarrow> xs | JObject kvs \<Rightarrow> map snd kvs)"

fun walk_path :: "'n heap \<Rightarrow> 'n JSONValue \<Rightarrow> nat list \<Rightarrow> 'n JSONValue option" where
  "walk_path h v [] = Some v"
| "walk_path h v (i # p) =
     (if i < length (children h v) then walk_path h (children h v ! i) p else None)"

fun batch_path :: "'n heap \<Rightarrow> 'n JSONValue list \<Rightarrow> nat list \<Rightarrow> 'n JSONValue option" where
  "batch_path h items [] = None"
| "batch_path h items (i # p) = (if i < length items then walk_path h (items ! i) p else None)"

text \<open>
  The paths of \<open>reach\<close> are fresh between the visited sets \<open>V\<close> and \<open>V'\<close> when every node
  they lead to was visited in between and no two of them lead to the same node.
\<close>

definition fresh_paths :: "(nat list \<Rightarrow> 'n JSONValue option) \<Rightarrow> nat set \<Rightarrow> nat set \<Rightarrow> bool" where
  "fresh_paths reach V V' =
     ((\<forall>p a. reach p = Some (JNode a) \<longrightarrow> a \<in> V' \<and> a \<notin> V)
      \<and> (\<forall>p q a. reach p = Some (JNode a) \<longrightarrow> reach q = Some (JNode a) \<longrightarrow> p = q))"

section \<open>Termination measures\<close>

text \<open>
  Resolution terminates because every expansion of a ref enters it in the stack first: the
  number of stored refs that the stack lacks goes down, and between two expansions the
  recursion descends into the stored value.
\<close>

fun psize :: "'n PoolAny \<Rightarrow> nat" where
  "psize (PScalar s) = 1"
| "psize (PArray xs) = Suc (sum_list (map psize xs))"
| "psize (PObject kvs) = Suc (sum_list (map (\<lambda>kv. psize (snd kv)) kvs))"

definition unresolved :: "'n backing \<Rightarrow> 'n stack \<Rightarrow> nat" where
  "unresolved b st = card (fst ` set b - dom st)"

type_synonym 'n resolve_call =
  "(('n backing \<times> 'n PoolAny \<times> 'n stack) + ('n backing \<times> 'n PoolAny list \<times> 'n stack)) +
   (('n backing \<times> (string \<times> 'n PoolAny) list \<times> (string \<times> 'n Resolved) list \<times> 'n stack) +
    (('n backing \<times> string \<times> 'n stack) +
     ('n backing \<times> string \<times> (string \<times> 'n PoolAny) list \<times> 'n stack)))"

fun resolve_pending :: "'n resolve_call \<Rightarrow> nat" where
  "resolve_pending (Inl (Inl (b, v, st))) = unresolved b st"
| "resolve_pending (Inl (Inr (b, xs, st))) = unresolved b st"
| "resolve_pending (Inr (Inl (b, kvs, acc, st))) = unresolved b st"
| "resolve_pending (Inr (Inr (Inl (b, ref, st)))) = unresolved b st"
| "resolve_pending (Inr (Inr (Inr (b, ref, kvs, st)))) = unresolved b st"

fun resolve_work :: "'n resolve_call \<Rightarrow> nat" where
  "resolve_work (Inl (Inl (b, v, st))) = 2 * psize v"
| "resolve_work (Inl (Inr (b, xs, st))) = Suc (2 * sum_list (map psize xs))"
| "resolve_work (Inr (Inl (b, kvs, acc, st))) = Suc (2 * sum_list (map (\<lambda>kv. psize (snd kv)) kvs))"
| "resolve_work (Inr (Inr (Inl (b, ref, st)))) = 0"
| "resolve_work (Inr (Inr (Inr (b, ref, kvs, st)))) = Suc (2 * sum_list (map (\<lambda>kv. psize (snd kv)) kvs))"

text \<open>
  Normalization terminates because a node is marked visited before its children are
  walked: the number of heap nodes not yet visited goes down.
\<close>

definition unvisited :: "'n heap \<Rightarrow> 'n walk \<Rightarrow> nat" where
  "unvisited h w = card ({..<length h} - visited w)"

type_synonym 'n update_call =
  "((('n \<Rightarrow> string) \<times> 'n heap \<times> nat \<times> 'n JSONValue \<times> 'n walk) +
    (('n \<Rightarrow> string) \<times> 'n heap \<times> nat \<times> 'n JSONValue list \<times> 'n walk)) +
   ((('n \<Rightarrow> string) \<times> 'n heap \<times> nat \<times> (string \<times> 'n JSONValue) list
       \<times> (string \<times> 'n PoolAny) list \<times> 'n walk) +
    (('n \<Rightarrow> string) \<times> 'n heap \<times> nat \<times> (string \<times> 'n JSONValue) list \<times> string \<times> 'n walk))"

fun update_pending :: "'n update_call \<Rightarrow> nat" where
  "update_pending (Inl (Inl (tostr, h, t, v, w))) = unvisited h w"
| "update_pending (Inl (Inr (tostr, h, t, xs, w))) = unvisited h w"
| "update_pending (Inr (Inl (tostr, h, t, kvs, acc, w))) = unvisited h w"
| "update_pending (Inr (Inr (tostr, h, t, data, ref, w))) = unvisited h w"

fun update_work :: "'n update_call \<Rightarrow> nat" where
  "update_work (Inl (Inl (tostr, h, t, v, w))) = 1"
| "update_work (Inl (Inr (tostr, h, t, xs, w))) = 2 * length xs"
| "update_work (Inr (Inl (tostr, h, t, kvs, acc, w))) = 2 * length kvs"
| "update_work (Inr (Inr (tostr, h, t, data, ref, w))) = Suc (2 * length data)"

section \<open>Termination of the resolver\<close>

lemma unresolved_mono: "dom st \<subseteq> dom st' \<Longrightarrow> unresolved b st' \<le> unresolved b st"
  unfolding unresolved_def by (rule card_mono) auto

lemma unresolved_less:
  "st ref = None \<Longrightarrow> map_of b ref = Some po \<Longrightarrow> unresolved b (st(ref \<mapsto> acc)) < unresolved b st"
proof -
  assume a: "st ref = None" and b: "map_of b ref = Some po"
  from b have "(ref, po) \<in> set b" by (rule map_of_SomeD)
  then have "ref \<in> fst ` set b" by force
  with a have "fst ` set b - dom (st(ref \<mapsto> acc)) \<subset> fst ` set b - dom st" by auto
  then show ?thesis unfolding unresolved_def by (intro psubset_card_mono) auto
qed

lemma psize_pos: "0 < psize v"
  by (cases v) auto

lemma dom_assign: "dom (assign ref k y st) = insert ref (dom st)"
  by (simp add: assign_def)

lemma resolve_dom_mono_partial:
  "resolveValue_resolveArray_resolveObject_resolvePoolObject_resolveFields_dom (Inl (Inl (b, v, st)))
     \<Longrightarrow> dom st \<subseteq> dom (snd (resolveValue b v st))"
  "resolveValue_resolveArray_resolveObject_resolvePoolObject_resolveFields_dom (Inl (Inr (b, xs, st)))
     \<Longrightarrow> dom st \<subseteq> dom (snd (resolveArray b xs st))"
  "resolveValue_resolveArray_resolveObject_resolvePoolObject_resolveFields_dom (Inr (Inl (b, kvs, acc, st)))
     \<Longrightarrow> dom st \<subseteq> dom (snd (resolveObject b kvs acc st))"
  "resolveValue_resolveArray_resolveObject_resolvePoolObject_resolveFields_dom (Inr (Inr (Inl (b, ref, st))))
     \<Longrightarrow> dom st \<subseteq> dom (snd (resolvePoolObject b ref st))"
  "resolveValue_resolveArray_resolveObject_resolvePoolObject_resolveFields_dom (Inr (Inr (Inr (b, ref, fs, st))))
     \<Longrightarrow> dom st \<subseteq> dom (resolveFields b ref fs st)"
proof (induction b v st and b xs st and b kvs acc st and b ref st and b ref fs st
    rule: resolveValue_resolveArray_resolveObject_resolvePoolObject_resolveFields.pinduct)
  case (1 b s st)
  then show ?case by (simp add: resolveValue.psimps)
next
  case (2 b xs st)
  then show ?case by (cases "resolveArray b xs st") (simp add: resolveValue.psimps)
next
  case (3 b kvs st)
  show ?case
  proof (cases "ref_of kvs")
    case None
    with 3 show ?thesis by (auto simp: resolveValue.psimps split: prod.splits)
  next
    case (Some ref)
    obtain m st' where r: "resolvePoolObject b ref st = (m, st')" by force
    with 3(3)[OF Some] have a: "dom st \<subseteq> dom st'" by simp
    show ?thesis
    proof (cases "m \<noteq> RScalar SNull")
      case True
      with 3(1) Some r a show ?thesis by (simp add: resolveValue.psimps)
    next
      case False
      obtain acc st'' where r2: "resolveObject b kvs [] st' = (acc, st'')" by force
      from 3(4)[OF Some r[symmetric]] False r2 have "dom st' \<subseteq> dom st''" by simp
      with a have "dom st \<subseteq> dom st''" by (rule order_trans)
      with 3(1) Some r False r2 show ?thesis by (simp add: resolveValue.psimps)
    qed
  qed
next
  case (4 b st)
  then show ?case by (simp add: resolveArray.psimps)
next
  case (5 b x xs st)
  obtain y st' where r: "resolveValue b x st = (y, st')" by force
  from 5(2) r have a: "dom st \<subseteq> dom st'" by simp
  obtain ys st'' where r2: "resolveArray b xs st' = (ys, st'')" by force
  from 5(3)[OF r[symmetric]] r2 have "dom st' \<subseteq> dom st''" by simp
  with a have "dom st \<subseteq> dom st''" by (rule order_trans)
  with 5(1) r r2 show ?case by (simp add: resolveArray.psimps)
next
  case (6 b acc st)
  then show ?case by (simp add: resolveObject.psimps)
next
  case (7 b k v kvs acc st)
  obtain y st' where r: "resolveValue b v st = (y, st')" by force
  from 7(2) r have a: "dom st \<subseteq> dom st'" by simp
  from 7(3)[OF r[symmetric]] have "dom st' \<subseteq> dom (snd (resolveObject b kvs (AList.update k y acc) st'))" .
  with a have "dom st \<subseteq> dom (snd (resolveObject b kvs (AList.update k y acc) st'))" by (rule order_trans)
  with 7(1) r show ?case by (simp add: resolveObject.psimps)
next
  case (8 b ref st)
  show ?case
  proof (cases "st ref")
    case (Some acc)
    with 8(1) show ?thesis by (simp add: resolvePoolObject.psimps)
  next
    case None
    note unseen = None
    show ?thesis
    proof (cases "map_of b ref")
      case None
      with 8(1) unseen show ?thesis by (simp add: resolvePoolObject.psimps)
    next
      case (Some po)
      from unseen have u: "\<not> st ref \<noteq> None" by simp
      from 8(2)[OF u Some]
      have "dom (st(ref \<mapsto> [])) \<subseteq> dom (resolveFields b ref (pool_fields po) (st(ref \<mapsto> [])))" .
      then have "dom st \<subseteq> dom (resolveFields b ref (pool_fields po) (st(ref \<mapsto> [])))" by auto
      with 8(1) unseen Some show ?thesis by (simp add: resolvePoolObject.psimps)
    qed
  qed
next
  case (9 b ref st)
  then show ?case by (simp add: resolveFields.psimps)
next
  case (10 b ref k item kvs st)
  obtain y st' where r: "resolveValue b item st = (y, st')" by force
  from 10(2) r have a: "dom st \<subseteq> dom st'" by simp
  from 10(3)[OF r[symmetric]] have "dom (assign ref k y st') \<subseteq> dom (resolveFields b ref kvs (assign ref k y st'))" .
  with a have "dom st \<subseteq> dom (resolveFields b ref kvs (assign ref k y st'))" by (auto simp: dom_assign)
  with 10(1) r show ?case by (simp add: resolveFields.psimps)
qed

lemma resolve_total:
  "All (resolveValue_resolveArray_resolveObject_resolvePoolObject_resolveFields_dom
         :: 'n resolve_call \<Rightarrow> bool)"
proof (relation "measures [resolve_pending, resolve_work]", goal_cases)
  case 1
  show ?case by simp
next
  case (2 b xs st)
  show ?case by simp
next
  case (3 b kvs st)
  show ?case by simp
next
  case (4 b kvs st ref)
  show ?case by simp
next
  case (5 b kvs st ref x y)
  then have "dom st \<subseteq> dom y"
    using resolve_dom_mono_partial(4)[of b ref st] by (metis snd_conv)
  from unresolved_mono[OF this, of b] show ?case by (auto simp: psize_pos)
next
  case (6 b x xs st)
  show ?case by simp
next
  case (7 b x xs st y st')
  then have "dom st \<subseteq> dom st'"
    using resolve_dom_mono_partial(1)[of b x st] by (metis snd_conv)
  from unresolved_mono[OF this, of b] show ?case by (auto simp: psize_pos)
next
  case (8 b k v kvs acc st)
  show ?case by simp
next
  case (9 b k v kvs acc st y st')
  then have "dom st \<subseteq> dom st'"
    using resolve_dom_mono_partial(1)[of b v st] by (metis snd_conv)
  from unresolved_mono[OF this, of b] show ?case by (auto simp: psize_pos)
next
  case (10 b ref st po)
  then show ?case by (simp add: unresolved_less)
next
  case (11 b ref k item kvs st)
  show ?case by simp
next
  case (12 b ref k item kvs st y st')
  then have "dom st \<subseteq> dom st'"
    using resolve_dom_mono_partial(1)[of b item st] by (metis snd_conv)
  then have "dom st \<subseteq> dom (assign ref k y st')" by (auto simp: dom_assign)
  from unresolved_mono[OF this, of b] show ?case by (auto simp: psize_pos)
qed


termination resolveValue
  by (rule resolve_total)

section \<open>Termination of the normalizer\<close>

lemma unvisited_mono: "visited w \<subseteq> visited w' \<Longrightarrow> unvisited h w' \<le> unvisited h w"
  unfolding unvisited_def by (rule card_mono) auto

lemma unvisited_less:
  assumes "a \<notin> visited w" "a < length h"
  shows "unvisited h (w\<lparr>visited := insert a (visited w)\<rparr>) < unvisited h w"
proof -
  from assms have "{..<length h} - insert a (visited w) \<subset> {..<length h} - visited w" by auto
  then have "card ({..<length h} - insert a (visited w)) < card ({..<length h} - visited w)"
    by (intro psubset_card_mono) auto
  then show ?thesis by (simp add: unvisited_def)
qed

lemma update_visited_mono_partial:
  "updateValue_updateArray_updateObject_updatePoolObject_dom (Inl (Inl (tostr, h, t, v, w)))
     \<Longrightarrow> visited w \<subseteq> visited (snd (updateValue tostr h t v w))"
  "updateValue_updateArray_updateObject_updatePoolObject_dom (Inl (Inr (tostr, h, t, xs, w)))
     \<Longrightarrow> visited w \<subseteq> visited (snd (updateArray tostr h t xs w))"
  "updateValue_updateArray_updateObject_updatePoolObject_dom (Inr (Inl (tostr, h, t, kvs, acc, w)))
     \<Longrightarrow> visited w \<subseteq> visited (snd (updateObject tostr h t kvs acc w))"
  "updateValue_updateArray_updateObject_updatePoolObject_dom (Inr (Inr (tostr, h, t, data, ref, w)))
     \<Longrightarrow> visited w \<subseteq> visited (snd (updatePoolObject tostr h t data ref w))"
proof (induction tostr h t v w and tostr h t xs w and tostr h t kvs acc w and tostr h t data ref w
    rule: updateValue_updateArray_updateObject_updatePoolObject.pinduct)
  case (1 tostr h t s w)
  then show ?case by (simp add: updateValue.psimps)
next
  case (2 tostr h t a w)
  let ?w1 = "w\<lparr>visited := insert a (visited w)\<rparr>"
  show ?case
  proof (cases "a \<in> visited w")
    case True
    with 2(1) show ?thesis by (simp add: updateValue.psimps)
  next
    case False
    show ?thesis
    proof (cases "node_at h a")
      case (JArray xs)
      from 2(2)[OF False JArray] have "visited w \<subseteq> visited (snd (updateArray tostr h t xs ?w1))" by auto
      with 2(1) False JArray show ?thesis
        by (cases "updateArray tostr h t xs ?w1") (auto simp: updateValue.psimps split: sum.splits)
    next
      case (JObject kvs)
      show ?thesis
      proof (cases "identify tostr kvs")
        case None
        from 2(3)[OF False JObject None] have "visited w \<subseteq> visited (snd (updateObject tostr h t kvs [] ?w1))" by auto
        with 2(1) False JObject None show ?thesis
          by (cases "updateObject tostr h t kvs [] ?w1") (auto simp: updateValue.psimps split: sum.splits)
      next
        case (Some ref)
        from 2(4)[OF False JObject Some] have "visited w \<subseteq> visited (snd (updatePoolObject tostr h t kvs ref ?w1))" by auto
        with 2(1) False JObject Some show ?thesis by (simp add: updateValue.psimps)
      qed
    qed
  qed
next
  case (3 tostr h t w)
  then show ?case by (simp add: updateArray.psimps)
next
  case (4 tostr h t x xs w)
  obtain r w' where r: "updateValue tostr h t x w = (r, w')" by force
  from 4(2) r have a: "visited w \<subseteq> visited w'" by simp
  show ?case
  proof (cases r)
    case (Inl e)
    with 4(1) r a show ?thesis by (simp add: updateArray.psimps)
  next
    case (Inr y)
    obtain r2 w'' where r2: "updateArray tostr h t xs w' = (r2, w'')" by force
    from 4(3)[OF r[symmetric] Inr] r2 have "visited w' \<subseteq> visited w''" by simp
    with a have "visited w \<subseteq> visited w''" by (rule order_trans)
    with 4(1) r Inr r2 show ?thesis by (simp add: updateArray.psimps split: sum.splits)
  qed
next
  case (5 tostr h t acc w)
  then show ?case by (simp add: updateObject.psimps)
next
  case (6 tostr h t k v kvs acc w)
  obtain r w' where r: "updateValue tostr h t v w = (r, w')" by force
  from 6(2) r have a: "visited w \<subseteq> visited w'" by simp
  show ?case
  proof (cases r)
    case (Inl e)
    with 6(1) r a show ?thesis by (simp add: updateObject.psimps)
  next
    case (Inr y)
    from 6(3)[OF r[symmetric] Inr]
    have "visited w' \<subseteq> visited (snd (updateObject tostr h t kvs (AList.update k y acc) w'))" .
    with a have "visited w \<subseteq> visited (snd (updateObject tostr h t kvs (AList.update k y acc) w'))"
      by (rule order_trans)
    with 6(1) r Inr show ?thesis by (simp add: updateObject.psimps)
  qed
next
  case (7 tostr h t data ref w)
  let ?w1 = "w\<lparr>references := set_add ref (references w)\<rparr>"
  from 7(2) have "visited w \<subseteq> visited (snd (updateObject tostr h t data [] ?w1))" by simp
  with 7(1) show ?case
    by (cases "updateObject tostr h t data [] ?w1") (auto simp: updatePoolObject.psimps split: sum.splits)
qed

lemma node_at_JArray: "node_at h a = JArray xs \<Longrightarrow> a < length h"
  by (simp add: node_at_def split: if_splits)

lemma node_at_JObject: "node_at h a = JObject kvs \<Longrightarrow> a < length h \<or> kvs = []"
  by (simp add: node_at_def split: if_splits)

lemma identify_Nil: "identify tostr [] = None"
  by (simp add: identify_def)

lemma update_total:
  "All (updateValue_updateArray_updateObject_updatePoolObject_dom
         :: 'n update_call \<Rightarrow> bool)"
proof (relation "measures [update_pending, update_work]", goal_cases)
  case 1
  show ?case by simp
next
  case (2 tostr h t a w xs)
  then show ?case by (simp add: unvisited_less node_at_JArray)
next
  case (3 tostr h t a w kvs)
  from node_at_JObject[OF 3(2)] show ?case
  proof
    assume "a < length h"
    with 3 show ?thesis by (simp add: unvisited_less)
  next
    assume e: "kvs = []"
    have "unvisited h (w\<lparr>visited := insert a (visited w)\<rparr>) \<le> unvisited h w"
      by (rule unvisited_mono) auto
    with e show ?thesis by auto
  qed
next
  case (4 tostr h t a w kvs ref)
  from 4(3) have "kvs \<noteq> []" by (auto simp: identify_Nil)
  with node_at_JObject[OF 4(2)] 4(1) show ?case by (simp add: unvisited_less)
next
  case (5 tostr h t x xs w)
  show ?case by simp
next
  case (6 tostr h t x xs w r w' y)
  then have "visited w \<subseteq> visited w'"
    using update_visited_mono_partial(1)[of tostr h t x w] by (metis snd_conv)
  from unvisited_mono[OF this, of h] show ?case by auto
next
  case (7 tostr h t k v kvs acc w)
  show ?case by simp
next
  case (8 tostr h t k v kvs acc w r w' y)
  then have "visited w \<subseteq> visited w'"
    using update_visited_mono_partial(1)[of tostr h t v w] by (metis snd_conv)
  from unvisited_mono[OF this, of h] show ?case by auto
next
  case (9 tostr h t data ref w)
  show ?case by (simp add: unvisited_def)
qed

termination updateValue
  by (rule update_total)

section \<open>The resolution cache only grows\<close>

text \<open>
  A call of the resolver leaves every entry that the cache already holds as it is, and
  enters only refs of stored entities. The loop of \<^verbatim>\<open>resolvePoolObject\<close> writes to the
  accumulator of its own ref and to nothing else.
\<close>

lemma subset_insert_trans:
  "C \<subseteq> insert r (B \<union> K) \<Longrightarrow> B = insert r A' \<Longrightarrow> A' \<subseteq> A \<union> K
   \<Longrightarrow> C \<subseteq> insert r (A \<union> K)"
  by blast

lemma subset_union_trans: "C \<subseteq> B \<union> K \<Longrightarrow> B \<subseteq> A \<union> K \<Longrightarrow> C \<subseteq> A \<union> K"
  by blast

lemma subset_insert_known:
  "C \<subseteq> insert r (B \<union> K) \<Longrightarrow> B = insert r A \<Longrightarrow> r \<in> K \<Longrightarrow> C \<subseteq> A \<union> K"
  by blast

lemma subset_insert_member:
  "C \<subseteq> B \<union> K \<Longrightarrow> B = insert r A' \<Longrightarrow> A' \<subseteq> A \<union> K \<Longrightarrow> r \<in> A
   \<Longrightarrow> C \<subseteq> A \<union> K"
  by blast

lemma resolve_frame:
  "(\<forall>r. st r \<noteq> None \<longrightarrow> snd (resolveValue b v st) r = st r)
     \<and> dom (snd (resolveValue b v st)) \<subseteq> dom st \<union> fst ` set b"
  "(\<forall>r. st r \<noteq> None \<longrightarrow> snd (resolveArray b xs st) r = st r)
     \<and> dom (snd (resolveArray b xs st)) \<subseteq> dom st \<union> fst ` set b"
  "(\<forall>r. st r \<noteq> None \<longrightarrow> snd (resolveObject b kvs acc st) r = st r)
     \<and> dom (snd (resolveObject b kvs acc st)) \<subseteq> dom st \<union> fst ` set b"
  "(\<forall>r. st r \<noteq> None \<longrightarrow> snd (resolvePoolObject b ref st) r = st r)
     \<and> dom (snd (resolvePoolObject b ref st)) \<subseteq> dom st \<union> fst ` set b"
  "(\<forall>r. r \<noteq> ref \<longrightarrow> st r \<noteq> None \<longrightarrow> resolveFields b ref fs st r = st r)
     \<and> dom (resolveFields b ref fs st) \<subseteq> insert ref (dom st \<union> fst ` set b)"
proof (induction b v st and b xs st and b kvs acc st and b ref st and b ref fs st
    rule: resolveValue_resolveArray_resolveObject_resolvePoolObject_resolveFields.induct)
  case (1 b s st)
  show ?case by simp
next
  case (2 b xs st)
  then show ?case by (cases "resolveArray b xs st") simp
next
  case (3 b kvs st)
  show ?case
  proof (cases "ref_of kvs")
    case None
    with 3(1) show ?thesis by (cases "resolveObject b kvs [] st") simp
  next
    case (Some ref)
    obtain m st' where r: "resolvePoolObject b ref st = (m, st')" by force
    from 3(2)[OF Some] r
    have a: "\<forall>r. st r \<noteq> None \<longrightarrow> st' r = st r" "dom st' \<subseteq> dom st \<union> fst ` set b" by simp_all
    show ?thesis
    proof (cases "m \<noteq> RScalar SNull")
      case True
      with Some r a show ?thesis by simp
    next
      case False
      obtain acc st'' where r2: "resolveObject b kvs [] st' = (acc, st'')" by force
      from 3(3)[OF Some r[symmetric]] False r2
      have c: "\<forall>r. st' r \<noteq> None \<longrightarrow> st'' r = st' r" "dom st'' \<subseteq> dom st' \<union> fst ` set b" by simp_all
      from a c have "\<forall>r. st r \<noteq> None \<longrightarrow> st'' r = st r" by metis
      moreover from c(2) a(2) have "dom st'' \<subseteq> dom st \<union> fst ` set b"
        by (rule subset_union_trans)
      ultimately show ?thesis using Some r False r2 by simp
    qed
  qed
next
  case (4 b st)
  show ?case by simp
next
  case (5 b x xs st)
  obtain y st' where r: "resolveValue b x st = (y, st')" by force
  obtain ys st'' where r2: "resolveArray b xs st' = (ys, st'')" by force
  from 5(1) r have a: "\<forall>r. st r \<noteq> None \<longrightarrow> st' r = st r" "dom st' \<subseteq> dom st \<union> fst ` set b" by simp_all
  from 5(2)[OF r[symmetric]] r2
  have c: "\<forall>r. st' r \<noteq> None \<longrightarrow> st'' r = st' r" "dom st'' \<subseteq> dom st' \<union> fst ` set b" by simp_all
  from a c have "\<forall>r. st r \<noteq> None \<longrightarrow> st'' r = st r" by metis
  moreover from c(2) a(2) have "dom st'' \<subseteq> dom st \<union> fst ` set b"
    by (rule subset_union_trans)
  ultimately show ?case using r r2 by simp
next
  case (6 b acc st)
  show ?case by simp
next
  case (7 b k v kvs acc st)
  obtain y st' where r: "resolveValue b v st = (y, st')" by force
  obtain acc' st'' where r2: "resolveObject b kvs (AList.update k y acc) st' = (acc', st'')" by force
  from 7(1) r have a: "\<forall>r. st r \<noteq> None \<longrightarrow> st' r = st r" "dom st' \<subseteq> dom st \<union> fst ` set b" by simp_all
  from 7(2)[OF r[symmetric]] r2
  have c: "\<forall>r. st' r \<noteq> None \<longrightarrow> st'' r = st' r" "dom st'' \<subseteq> dom st' \<union> fst ` set b" by simp_all
  from a c have "\<forall>r. st r \<noteq> None \<longrightarrow> st'' r = st r" by metis
  moreover from c(2) a(2) have "dom st'' \<subseteq> dom st \<union> fst ` set b"
    by (rule subset_union_trans)
  ultimately show ?case using r r2 by simp
next
  case (8 b ref st)
  show ?case
  proof (cases "st ref")
    case (Some acc)
    then show ?thesis by simp
  next
    case None
    note unseen = None
    show ?thesis
    proof (cases "map_of b ref")
      case None
      with unseen show ?thesis by simp
    next
      case (Some po)
      let ?st' = "resolveFields b ref (pool_fields po) (st(ref \<mapsto> []))"
      from unseen have u: "\<not> st ref \<noteq> None" by simp
      note ih = 8[OF u Some]
      note c = ih[THEN conjunct1] ih[THEN conjunct2]
      from Some have "(ref, po) \<in> set b" by (rule map_of_SomeD)
      then have k: "ref \<in> fst ` set b" by force
      have e: "dom (st(ref \<mapsto> [])) = insert ref (dom st)" by simp
      from c(1) unseen have "\<forall>r. st r \<noteq> None \<longrightarrow> ?st' r = st r" by (metis fun_upd_apply)
      moreover from c(2) e k have "dom ?st' \<subseteq> dom st \<union> fst ` set b"
        by (rule subset_insert_known)
      ultimately show ?thesis using unseen Some by simp
    qed
  qed
next
  case (9 b ref st)
  show ?case by auto
next
  case (10 b ref k item kvs st)
  obtain y st' where r: "resolveValue b item st = (y, st')" by force
  let ?st2 = "assign ref k y st'"
  let ?st3 = "resolveFields b ref kvs ?st2"
  from 10(1) r have a: "\<forall>r. st r \<noteq> None \<longrightarrow> st' r = st r" "dom st' \<subseteq> dom st \<union> fst ` set b" by simp_all
  from 10(2)[OF r[symmetric]]
  have c: "\<forall>r. r \<noteq> ref \<longrightarrow> ?st2 r \<noteq> None \<longrightarrow> ?st3 r = ?st2 r"
    "dom ?st3 \<subseteq> insert ref (dom ?st2 \<union> fst ` set b)" by simp_all
  have o: "\<forall>r. r \<noteq> ref \<longrightarrow> ?st2 r = st' r" by (simp add: assign_def)
  have e: "dom ?st2 = insert ref (dom st')" by (rule dom_assign)
  from a(1) c(1) o have "\<forall>r. r \<noteq> ref \<longrightarrow> st r \<noteq> None \<longrightarrow> ?st3 r = st r" by metis
  moreover from c(2) e a(2) have "dom ?st3 \<subseteq> insert ref (dom st \<union> fst ` set b)"
    by (rule subset_insert_trans)
  ultimately show ?case using r by simp
qed

lemma resolveValue_keeps: "st r \<noteq> None \<Longrightarrow> snd (resolveValue b v st) r = st r"
  using resolve_frame(1)[of st b v] by blast

lemma resolveValue_dom: "dom (snd (resolveValue b v st)) \<subseteq> dom st \<union> fst ` set b"
  using resolve_frame(1)[of st b v] by blast

lemma resolvePoolObject_dom: "dom (snd (resolvePoolObject b ref st)) \<subseteq> dom st \<union> fst ` set b"
  using resolve_frame(4)[of st b ref] by blast

text \<open>A field that the loop has yet to reach keeps the value the accumulator has for it.\<close>

lemma resolveFields_other:
  "st ref = Some acc \<Longrightarrow> k \<notin> fst ` set fs
   \<Longrightarrow> \<exists>acc'. resolveFields b ref fs st ref = Some acc' \<and> map_of acc' k = map_of acc k"
proof (induction fs arbitrary: st acc)
  case Nil
  then show ?case by simp
next
  case (Cons kv fs)
  obtain k0 item where kv: "kv = (k0, item)" by force
  obtain y st' where r: "resolveValue b item st = (y, st')" by force
  from Cons.prems(1) have "snd (resolveValue b item st) ref = st ref"
    by (intro resolveValue_keeps) simp
  with r Cons.prems(1) have s: "st' ref = Some acc" by simp
  then have a: "assign ref k0 y st' ref = Some (AList.update k0 y acc)" by (simp add: assign_def)
  from Cons.prems(2) kv have n: "k \<noteq> k0" "k \<notin> fst ` set fs" by auto
  from Cons.IH[of "assign ref k0 y st'" "AList.update k0 y acc", OF a n(2)] obtain acc' where
    "resolveFields b ref fs (assign ref k0 y st') ref = Some acc'"
    "map_of acc' k = map_of (AList.update k0 y acc) k" by blast
  with n(1) kv r show ?case by (simp add: update_conv')
qed

text \<open>
  When the fields of an entity have distinct names, the accumulator ends with, under each
  name, the value that the field resolved to at its turn; the cache of that moment holds
  the entity's own ref and otherwise only refs of stored entities or refs it held before.
\<close>

lemma resolveFields_lookup:
  "distinct (map fst fs) \<Longrightarrow> st ref \<noteq> None \<Longrightarrow> map_of fs k = Some item
   \<Longrightarrow> \<exists>st1 acc'. dom st1 \<subseteq> dom st \<union> fst ` set b
         \<and> resolveFields b ref fs st ref = Some acc'
         \<and> map_of acc' k = Some (fst (resolveValue b item st1))"
proof (induction fs arbitrary: st)
  case Nil
  then show ?case by simp
next
  case (Cons kv fs)
  obtain k0 item0 where kv: "kv = (k0, item0)" by force
  obtain y st' where r: "resolveValue b item0 st = (y, st')" by force
  from Cons.prems(2) obtain acc where acc: "st ref = Some acc" by blast
  then have "snd (resolveValue b item0 st) ref = st ref" by (intro resolveValue_keeps) simp
  with r acc have s: "st' ref = Some acc" by simp
  then have a: "assign ref k0 y st' ref = Some (AList.update k0 y acc)" by (simp add: assign_def)
  from resolveValue_dom[of b item0 st] r have d: "dom st' \<subseteq> dom st \<union> fst ` set b" by simp
  from acc have rd: "ref \<in> dom st" by blast
  show ?case
  proof (cases "k = k0")
    case True
    with Cons.prems(3) kv have i: "item = item0" by simp
    from Cons.prems(1) kv have "k0 \<notin> fst ` set fs" by auto
    from resolveFields_other[of "assign ref k0 y st'" ref "AList.update k0 y acc" k0 fs b, OF a this]
    obtain acc' where
      "resolveFields b ref fs (assign ref k0 y st') ref = Some acc'"
      "map_of acc' k0 = map_of (AList.update k0 y acc) k0" by blast
    with True i kv r have
      "resolveFields b ref (kv # fs) st ref = Some acc'"
      "map_of acc' k = Some (fst (resolveValue b item st))" by (simp_all add: update_conv')
    then show ?thesis by blast
  next
    case False
    with Cons.prems(3) kv have m: "map_of fs k = Some item" by simp
    from Cons.prems(1) have dd: "distinct (map fst fs)" by simp
    from a have nn: "assign ref k0 y st' ref \<noteq> None" by simp
    from Cons.IH[of "assign ref k0 y st'", OF dd nn m] obtain st1 acc' where
      i: "dom st1 \<subseteq> dom (assign ref k0 y st') \<union> fst ` set b"
      "resolveFields b ref fs (assign ref k0 y st') ref = Some acc'"
      "map_of acc' k = Some (fst (resolveValue b item st1))" by blast
    have e: "dom (assign ref k0 y st') = insert ref (dom st')" by (rule dom_assign)
    from i(1) e d rd have "dom st1 \<subseteq> dom st \<union> fst ` set b"
      by (rule subset_insert_member)
    with i(2,3) kv r show ?thesis by auto
  qed
qed

section \<open>Association lists as objects\<close>




lemma map_of_spread:
  "distinct (map fst new) \<Longrightarrow> map_of (spread base new) = map_of base ++ map_of new"
  unfolding spread_def
proof (induction new arbitrary: base)
  case Nil
  show ?case by simp
next
  case (Cons kv new)
  obtain k v where kv: "kv = (k, v)" by force
  from Cons.prems kv have d: "distinct (map fst new)" and n: "k \<notin> dom (map_of new)"
    by (auto simp: dom_map_of_conv_image_fst)
  have "map_of (fold (\<lambda>(k, v). AList.update k v) new (AList.update k v base))
          = map_of (AList.update k v base) ++ map_of new"
    by (rule Cons.IH[OF d])
  also have "map_of (AList.update k v base) = (map_of base)(k \<mapsto> v)"
    by (rule update_conv')
  also have "(map_of base)(k \<mapsto> v) ++ map_of new = (map_of base ++ map_of new)(k \<mapsto> v)"
    using n by (rule map_add_upd_left)
  also have "\<dots> = map_of base ++ (map_of new)(k \<mapsto> v)"
    by (rule map_add_upd[symmetric])
  finally show ?case unfolding kv by (simp del: fun_upd_apply)
qed


section \<open>Normalizing one object\<close>

text \<open>What \<^verbatim>\<open>objectMap\<close> builds has every key once.\<close>

lemma updateObject_distinct:
  "distinct (map fst acc) \<Longrightarrow> updateObject tostr h t kvs acc w = (Inr new, w')
   \<Longrightarrow> distinct (map fst new)"
proof (induction kvs arbitrary: acc w)
  case Nil
  then show ?case by simp
next
  case (Cons kv kvs)
  obtain k v where kv: "kv = (k, v)" by force
  obtain r w1 where r: "updateValue tostr h t v w = (r, w1)" by force
  show ?case
  proof (cases r)
    case (Inl e)
    with Cons.prems(2) kv r show ?thesis by simp
  next
    case (Inr y)
    with Cons.prems(2) kv r have "updateObject tostr h t kvs (AList.update k y acc) w1 = (Inr new, w')"
      by simp
    moreover from Cons.prems(1) have "distinct (map fst (AList.update k y acc))"
      by (simp add: distinct_update)
    ultimately show ?thesis by (rule Cons.IH[rotated])
  qed
qed



text \<open>
  A batch of one object with an identity: the entity stored under its ref is the spread of
  the entity found there at the start over the normalized fields.
\<close>

lemma write_one_object:
  assumes "node_at h a = JObject data"
    and "identify tostr data = Some ref"
    and "updateObject tostr h (time pool) data []
           \<lparr>visited = {a}, references = [ref], store = backing pool\<rparr> = (Inr new, w')"
  shows "fst (write_batch tostr h [JNode a] pool) = None"
    and "map_of (backing (snd (snd (write_batch tostr h [JNode a] pool)))) ref
           = Some \<lparr>updatedAt = time pool,
                   pool_fields = spread (case map_of (backing pool) ref of
                                           None \<Rightarrow> [] | Some existing \<Rightarrow> pool_fields existing) new\<rparr>"
  using assms
  by (simp_all add: write_batch_def Let_def set_add_def update_conv)

section \<open>Missing refs\<close>

text \<open>
  Claim C4. For every ref for which the backing store holds no entity, \<^verbatim>\<open>read(ref)\<close> returns
  null. The resolver has no failing branch at all: its result type carries no error, so
  the read can raise nothing; the cache of the call stays empty.
\<close>

theorem read_missing_null:
  "map_of (backing pool) ref = None \<Longrightarrow> read pool ref = (RScalar SNull, Map.empty)"
  by (simp add: read_def)

theorem read_missing_null_witness:
  "map_of (backing (new_pool :: nat ObjectPool)) ''user:999'' = None
   \<and> read (new_pool :: nat ObjectPool) ''user:999'' = (RScalar SNull, Map.empty)"
proof -
  have h: "map_of (backing (new_pool :: nat ObjectPool)) ''user:999'' = None"
    by (simp add: new_pool_def)
  from h read_missing_null [OF h] show ?thesis by simp
qed

section \<open>The generation counter\<close>

text \<open>
  Claim C5, as stated, says that every call of \<^verbatim>\<open>write\<close> advances \<^verbatim>\<open>time\<close> by one. A call
  that throws does not: the object below holds itself in its field \<open>self\<close>, the
  normalizer throws on the second visit, and the increment after the loop is never
  reached.
\<close>

theorem write_time_counterexample:
  "time (snd (snd (write_batch nat_str [JObject [(''self'', JNode 0)]] [JNode 0] new_pool)))
     \<noteq> time (new_pool :: nat ObjectPool) + 1"
  by code_simp

text \<open>
  Claim C5, amended. Every call of \<^verbatim>\<open>write\<close> that returns advances \<^verbatim>\<open>time\<close> by exactly one,
  whatever the number of items, zero included. (The counter is a natural number here; a
  JavaScript number stops counting at \<open>2\<^sup>5\<^sup>3\<close>, which no run reaches.)
\<close>

theorem write_time_increments:
  "fst (write_batch tostr h items pool) = None
   \<Longrightarrow> time (snd (snd (write_batch tostr h items pool))) = time pool + 1"
  by (auto simp: write_batch_def time_def Let_def split: prod.splits option.splits)

theorem write_time_increments_witness:
  "fst (write_batch nat_str [] [] (new_pool :: nat ObjectPool)) = None
   \<and> time (snd (snd (write_batch nat_str [] [] (new_pool :: nat ObjectPool)))) = time (new_pool :: nat ObjectPool) + 1"
proof -
  have h: "fst (write_batch nat_str [] [] (new_pool :: nat ObjectPool)) = None"
    by (simp add: write_batch_def Let_def)
  from h write_time_increments [OF h] show ?thesis by simp
qed

text \<open>
  Claim C10. A call of \<^verbatim>\<open>write\<close> that throws leaves the generation counter as it was and
  notifies no listener: the trace of the call is empty. What it throws is the cyclic
  reference error.
\<close>

theorem write_throw_keeps_time:
  "fst (write_batch tostr h items pool) = Some e
   \<Longrightarrow> time (snd (snd (write_batch tostr h items pool))) = time pool
       \<and> fst (snd (write_batch tostr h items pool)) = []
       \<and> e = CyclicReference"
  by (cases e) (auto simp: write_batch_def time_def Let_def split: prod.splits option.splits)

theorem write_throw_keeps_time_witness:
  "fst (write_batch nat_str [JObject [(''self'', JNode 0)]] [JNode 0] (new_pool :: nat ObjectPool))
     = Some CyclicReference
   \<and> time (snd (snd (write_batch nat_str [JObject [(''self'', JNode 0)]] [JNode 0]
         (new_pool :: nat ObjectPool)))) = time (new_pool :: nat ObjectPool)
   \<and> fst (snd (write_batch nat_str [JObject [(''self'', JNode 0)]] [JNode 0]
         (new_pool :: nat ObjectPool))) = []"
proof -
  have h: "fst (write_batch nat_str [JObject [(''self'', JNode 0)]] [JNode 0]
      (new_pool :: nat ObjectPool)) = Some CyclicReference"
    by code_simp
  from h write_throw_keeps_time [OF h] show ?thesis by simp
qed

section \<open>A failed batch is not rolled back\<close>

text \<open>
  Claim C8. There is a batch in which a cycle is detected partway through and the
  entities normalized before it stay in the backing store. The batch below holds the user
  \<open>user:1\<close> and then an object that contains itself: the call throws, and \<open>user:1\<close>, which
  the pool did not hold before, is stored.
\<close>

theorem write_not_atomic:
  "\<exists>h items (pool :: nat ObjectPool).
     fst (write_batch nat_str h items pool) = Some CyclicReference
     \<and> map_of (backing pool) ''user:1'' = None
     \<and> map_of (backing (snd (snd (write_batch nat_str h items pool)))) ''user:1''
         = Some \<lparr>updatedAt = 0,
                 pool_fields = [(''id'', PScalar (SNum 1)), (''__type'', PScalar (SStr ''user'')),
                                (''name'', PScalar (SStr ''Alice''))]\<rparr>"
proof -
  let ?h = "[JObject [(''id'', JScalar (SNum (1::nat))), (''__type'', JScalar (SStr ''user'')),
                      (''name'', JScalar (SStr ''Alice''))],
             JObject [(''self'', JNode 1)]]"
  let ?items = "[JNode 0, JNode 1] :: nat JSONValue list"
  have "fst (write_batch nat_str ?h ?items new_pool) = Some CyclicReference"
    by code_simp
  moreover have "map_of (backing (new_pool :: nat ObjectPool)) ''user:1'' = None"
    by code_simp
  moreover have "map_of (backing (snd (snd (write_batch nat_str ?h ?items new_pool)))) ''user:1''
         = Some \<lparr>updatedAt = 0,
                 pool_fields = [(''id'', PScalar (SNum 1)), (''__type'', PScalar (SStr ''user'')),
                                (''name'', PScalar (SStr ''Alice''))]\<rparr>"
    by code_simp
  ultimately show ?thesis by blast
qed

section \<open>Round trip\<close>


lemma read_stored:
  "map_of (backing pool) ref = Some po
   \<Longrightarrow> read pool ref
       = (RShared ref, resolveFields (backing pool) ref (pool_fields po) [ref \<mapsto> []])"
  by (simp add: read_def)




section \<open>Dangling reference markers\<close>

lemma resolve_dangling_marker:
  "st target = None \<Longrightarrow> map_of b target = None
   \<Longrightarrow> resolveValue b (PoolReference target) st
       = (RObject [(REF_LABEL, RScalar (SStr target))], st)"
  by (simp add: PoolReference_def ref_of_def)

text \<open>
  Claim C6. Let a stored entity hold, in its field \<open>k\<close>, a reference marker whose target
  has no entity in the backing store. The \<^verbatim>\<open>read\<close> of that entity returns its accumulator,
  and the field \<open>k\<close> of the accumulator is the one-field object with the marker's tag and
  ref string; it is not null. The same holds wherever a read meets such a marker: the
  cache of a read holds refs of stored entities only, and there the marker resolves to
  that object and leaves the cache as it is.
\<close>

theorem dangling_marker_literal:
  fixes pool :: "'n ObjectPool"
  assumes stored: "map_of (backing pool) ref = Some po"
    and keys: "distinct (map fst (pool_fields po))"
    and field: "map_of (pool_fields po) k = Some (PoolReference target)"
    and dangling: "map_of (backing pool) target = None"
  shows "fst (read pool ref) = RShared ref
     \<and> (\<exists>acc. snd (read pool ref) ref = Some acc
              \<and> map_of acc k = Some (RObject [(REF_LABEL, RScalar (SStr target))]))
     \<and> (dom st \<subseteq> fst ` set (backing pool) \<longrightarrow>
          resolveValue (backing pool) (PoolReference target) st
            = (RObject [(REF_LABEL, RScalar (SStr target))], st))"
proof -
  let ?b = "backing pool"
  have absent: "st' target = None" if "dom st' \<subseteq> fst ` set ?b" for st' :: "'n stack"
  proof -
    from dangling have "target \<notin> fst ` set ?b" by (simp add: map_of_eq_None_iff)
    with that show ?thesis by blast
  qed
  from stored have rd: "read pool ref = (RShared ref, resolveFields ?b ref (pool_fields po) [ref \<mapsto> []])"
    by (rule read_stored)
  have seen: "[ref \<mapsto> []] ref \<noteq> None" by simp
  from resolveFields_lookup[of "pool_fields po" "[ref \<mapsto> []]" ref k "PoolReference target" ?b,
      OF keys seen field]
  obtain st1 acc where
    d: "dom st1 \<subseteq> dom ([ref \<mapsto> []] :: 'n stack) \<union> fst ` set ?b" and
    r: "resolveFields ?b ref (pool_fields po) [ref \<mapsto> []] ref = Some acc" and
    m: "map_of acc k = Some (fst (resolveValue ?b (PoolReference target) st1))" by blast
  from stored have "(ref, po) \<in> set ?b" by (rule map_of_SomeD)
  then have "ref \<in> fst ` set ?b" by force
  with d have "dom st1 \<subseteq> fst ` set ?b" by auto
  then have "st1 target = None" by (rule absent)
  with m dangling have "map_of acc k = Some (RObject [(REF_LABEL, RScalar (SStr target))])"
    by (simp add: resolve_dangling_marker)
  with rd r have c2: "\<exists>acc. snd (read pool ref) ref = Some acc
      \<and> map_of acc k = Some (RObject [(REF_LABEL, RScalar (SStr target))])" by simp
  from rd have c1: "fst (read pool ref) = RShared ref" by simp
  have c3: "resolveValue ?b (PoolReference target) st
      = (RObject [(REF_LABEL, RScalar (SStr target))], st)" if "dom st \<subseteq> fst ` set ?b"
    using absent[OF that] dangling by (rule resolve_dangling_marker)
  from c1 c2 c3 show ?thesis by blast
qed

text \<open>
  The witness: the post \<open>post:1\<close> names the author \<open>user:9\<close>, whom the pool does not hold.
\<close>

theorem dangling_marker_literal_witness:
  "map_of (backing \<lparr>generation = 1, listeners = Map.empty,
        backing = [(''post:1'', \<lparr>updatedAt = 0,
                      pool_fields = [(''title'', PScalar (SStr ''Hello'')),
                                     (''author'', PoolReference ''user:9'')]\<rparr>)]\<rparr>) ''user:9''
     = (None :: nat PoolObject option)
   \<and> (\<exists>acc. snd (read \<lparr>generation = 1, listeners = Map.empty,
        backing = [(''post:1'', \<lparr>updatedAt = 0,
                      pool_fields = [(''title'', PScalar (SStr ''Hello'')),
                                     (''author'', PoolReference ''user:9'' :: nat PoolAny)]\<rparr>)]\<rparr>
          ''post:1'') ''post:1'' = Some acc
        \<and> map_of acc ''author'' = Some (RObject [(REF_LABEL, RScalar (SStr ''user:9''))]))"
proof -
  let ?po = "\<lparr>updatedAt = 0,
              pool_fields = [(''title'', PScalar (SStr ''Hello'')),
                             (''author'', PoolReference ''user:9'' :: nat PoolAny)]\<rparr>"
  let ?pool = "\<lparr>generation = 1, listeners = Map.empty, backing = [(''post:1'', ?po)]\<rparr>"
  have stored: "map_of (backing ?pool) ''post:1'' = Some ?po" by simp
  have keys: "distinct (map fst (pool_fields ?po))" by simp
  have field: "map_of (pool_fields ?po) ''author'' = Some (PoolReference ''user:9'')" by simp
  have dangling: "map_of (backing ?pool) ''user:9'' = None" by simp
  from dangling_marker_literal [OF stored keys field dangling] dangling
  show ?thesis by blast
qed

section \<open>Merge, not replace\<close>

text \<open>
  Claim C2, as stated, writes \<^verbatim>\<open>{id:1,type:'user',name:'Alice'}\<close> and then
  \<^verbatim>\<open>{id:1,type:'user',age:30}\<close>. The type label that \<^verbatim>\<open>identify\<close> reads is the field
  \<^verbatim>\<open>__type\<close>, not \<^verbatim>\<open>type\<close>: neither object has an identity, neither is stored, and
  \<^verbatim>\<open>read('user:1')\<close> returns null after the two writes.
\<close>

theorem merge_counterexample:
  "fst (read
     (snd (snd (write_batch nat_str
        [JObject [(''id'', JScalar (SNum 1)), (''type'', JScalar (SStr ''user'')),
                  (''name'', JScalar (SStr ''Alice''))],
         JObject [(''id'', JScalar (SNum 1)), (''type'', JScalar (SStr ''user'')),
                  (''age'', JScalar (SNum 30))]]
        [JNode 1]
        (snd (snd (write_batch nat_str
           [JObject [(''id'', JScalar (SNum 1)), (''type'', JScalar (SStr ''user'')),
                     (''name'', JScalar (SStr ''Alice''))],
            JObject [(''id'', JScalar (SNum 1)), (''type'', JScalar (SStr ''user'')),
                     (''age'', JScalar (SNum 30))]]
           [JNode 0] new_pool)))))) ''user:1'')
   = (RScalar SNull :: nat Resolved)"
  by code_simp

text \<open>
  Claim C2, amended: the two objects carry the type label in the field \<^verbatim>\<open>__type\<close>. Writing
  \<^verbatim>\<open>{id:1,__type:'user',name:'Alice'}\<close> and then, in a later call,
  \<^verbatim>\<open>{id:1,__type:'user',age:30}\<close> makes \<^verbatim>\<open>read('user:1')\<close> return a mapping with both
  \<open>name: 'Alice'\<close> and \<open>age: 30\<close>. In general, a write of one object with an identity
  stores, under its ref, fields that are the fields of the entity found there overlaid
  with the normalized fields of the object: a key of the object wins, a key of the entity
  that the object does not have is kept.
\<close>

theorem merge_not_replace:
  fixes pool :: "'n ObjectPool"
  shows "(node_at h a = JObject data \<and> identify tostr data = Some ref
      \<and> updateObject tostr h (time pool) data []
            \<lparr>visited = {a}, references = [ref], store = backing pool\<rparr> = (Inr new, w')
    \<longrightarrow> fst (write_batch tostr h [JNode a] pool) = None
        \<and> (\<exists>fs. map_of (backing (snd (snd (write_batch tostr h [JNode a] pool)))) ref
                    = Some \<lparr>updatedAt = time pool, pool_fields = fs\<rparr>
                 \<and> map_of fs = map_of (case map_of (backing pool) ref of
                                         None \<Rightarrow> [] | Some existing \<Rightarrow> pool_fields existing)
                                ++ map_of new))
   \<and> snd (read
       (snd (snd (write_batch nat_str
          [JObject [(''id'', JScalar (SNum 1)), (''__type'', JScalar (SStr ''user'')),
                    (''name'', JScalar (SStr ''Alice''))],
           JObject [(''id'', JScalar (SNum 1)), (''__type'', JScalar (SStr ''user'')),
                    (''age'', JScalar (SNum 30))]]
          [JNode 1]
          (snd (snd (write_batch nat_str
             [JObject [(''id'', JScalar (SNum 1)), (''__type'', JScalar (SStr ''user'')),
                       (''name'', JScalar (SStr ''Alice''))],
              JObject [(''id'', JScalar (SNum 1)), (''__type'', JScalar (SStr ''user'')),
                       (''age'', JScalar (SNum 30))]]
             [JNode 0] new_pool)))))) ''user:1'') ''user:1''
     = Some [(''id'', RScalar (SNum (1::nat))), (''__type'', RScalar (SStr ''user'')),
             (''name'', RScalar (SStr ''Alice'')), (''age'', RScalar (SNum 30))]"
proof (intro conjI impI)
  assume a: "node_at h a = JObject data \<and> identify tostr data = Some ref
      \<and> updateObject tostr h (time pool) data []
            \<lparr>visited = {a}, references = [ref], store = backing pool\<rparr> = (Inr new, w')"
  then have obj: "node_at h a = JObject data" and ident: "identify tostr data = Some ref"
    and norm: "updateObject tostr h (time pool) data []
            \<lparr>visited = {a}, references = [ref], store = backing pool\<rparr> = (Inr new, w')"
    by simp_all
  note w = write_one_object[OF obj ident norm]
  show "fst (write_batch tostr h [JNode a] pool) = None" by (rule w(1))
  have "distinct (map fst ([] :: (string \<times> 'n PoolAny) list))" by simp
  from updateObject_distinct[OF this norm] have "distinct (map fst new)" .
  then have "map_of (spread (case map_of (backing pool) ref of
                               None \<Rightarrow> [] | Some existing \<Rightarrow> pool_fields existing) new)
      = map_of (case map_of (backing pool) ref of
                  None \<Rightarrow> [] | Some existing \<Rightarrow> pool_fields existing) ++ map_of new"
    by (rule map_of_spread)
  with w(2) show "\<exists>fs. map_of (backing (snd (snd (write_batch tostr h [JNode a] pool)))) ref
                    = Some \<lparr>updatedAt = time pool, pool_fields = fs\<rparr>
                 \<and> map_of fs = map_of (case map_of (backing pool) ref of
                                         None \<Rightarrow> [] | Some existing \<Rightarrow> pool_fields existing)
                                ++ map_of new"
    by blast
next
  show "snd (read
       (snd (snd (write_batch nat_str
          [JObject [(''id'', JScalar (SNum 1)), (''__type'', JScalar (SStr ''user'')),
                    (''name'', JScalar (SStr ''Alice''))],
           JObject [(''id'', JScalar (SNum 1)), (''__type'', JScalar (SStr ''user'')),
                    (''age'', JScalar (SNum 30))]]
          [JNode 1]
          (snd (snd (write_batch nat_str
             [JObject [(''id'', JScalar (SNum 1)), (''__type'', JScalar (SStr ''user'')),
                       (''name'', JScalar (SStr ''Alice''))],
              JObject [(''id'', JScalar (SNum 1)), (''__type'', JScalar (SStr ''user'')),
                       (''age'', JScalar (SNum 30))]]
             [JNode 0] new_pool)))))) ''user:1'') ''user:1''
     = Some [(''id'', RScalar (SNum (1::nat))), (''__type'', RScalar (SStr ''user'')),
             (''name'', RScalar (SStr ''Alice'')), (''age'', RScalar (SNum 30))]"
    by code_simp
qed

text \<open>
  The witness: the pool holds Alice under \<open>user:1\<close> after a first write; the second write
  brings her age. The stored entity then has both fields.
\<close>

theorem merge_not_replace_witness:
  "node_at [JObject [(''id'', JScalar (SNum (1::nat))), (''__type'', JScalar (SStr ''user'')),
                     (''age'', JScalar (SNum 30))]] 0
     = JObject [(''id'', JScalar (SNum 1)), (''__type'', JScalar (SStr ''user'')),
                (''age'', JScalar (SNum 30))]
   \<and> identify nat_str [(''id'', JScalar (SNum 1)), (''__type'', JScalar (SStr ''user'')),
                        (''age'', JScalar (SNum 30))] = Some ''user:1''
   \<and> (\<exists>fs. map_of (backing (snd (snd (write_batch nat_str
           [JObject [(''id'', JScalar (SNum (1::nat))), (''__type'', JScalar (SStr ''user'')),
                     (''age'', JScalar (SNum 30))]]
           [JNode 0]
           \<lparr>generation = 1, listeners = Map.empty,
              backing = [(''user:1'', \<lparr>updatedAt = 0,
                 pool_fields = [(''id'', PScalar (SNum 1)), (''__type'', PScalar (SStr ''user'')),
                                (''name'', PScalar (SStr ''Alice''))]\<rparr>)]\<rparr>)))) ''user:1''
          = Some \<lparr>updatedAt = 1, pool_fields = fs\<rparr>
        \<and> map_of fs ''name'' = Some (PScalar (SStr ''Alice''))
        \<and> map_of fs ''age'' = Some (PScalar (SNum 30)))"
proof -
  let ?data = "[(''id'', JScalar (SNum (1::nat))), (''__type'', JScalar (SStr ''user'')),
                (''age'', JScalar (SNum 30))]"
  let ?new = "[(''id'', PScalar (SNum (1::nat))), (''__type'', PScalar (SStr ''user'')),
               (''age'', PScalar (SNum 30))]"
  let ?pool = "\<lparr>generation = 1, listeners = Map.empty,
              backing = [(''user:1'', \<lparr>updatedAt = 0,
                 pool_fields = [(''id'', PScalar (SNum (1::nat))), (''__type'', PScalar (SStr ''user'')),
                                (''name'', PScalar (SStr ''Alice''))]\<rparr>)]\<rparr>"
  let ?w = "\<lparr>visited = {0}, references = [''user:1''], store = backing ?pool\<rparr>"
  have obj: "node_at [JObject ?data] 0 = JObject ?data" by (simp add: node_at_def)
  have ident: "identify nat_str ?data = Some ''user:1''"
    by (simp add: identify_def TYPE_LABEL_def)
  have norm: "updateObject nat_str [JObject ?data] (time ?pool) ?data [] ?w = (Inr ?new, ?w)"
    by simp
  from obj ident norm have hyp: "node_at [JObject ?data] 0 = JObject ?data
      \<and> identify nat_str ?data = Some ''user:1''
      \<and> updateObject nat_str [JObject ?data] (time ?pool) ?data [] ?w = (Inr ?new, ?w)"
    by (intro conjI)
  from merge_not_replace [of "[JObject ?data]" 0 ?data nat_str "''user:1''" ?pool ?new ?w,
      THEN conjunct1, rule_format, OF hyp]
  obtain fs where
    "map_of (backing (snd (snd (write_batch nat_str [JObject ?data] [JNode 0] ?pool)))) ''user:1''
       = Some \<lparr>updatedAt = time ?pool, pool_fields = fs\<rparr>"
    "map_of fs = map_of (case map_of (backing ?pool) ''user:1'' of
                           None \<Rightarrow> [] | Some existing \<Rightarrow> pool_fields existing) ++ map_of ?new"
    by blast
  then have "map_of (backing (snd (snd (write_batch nat_str [JObject ?data] [JNode 0] ?pool)))) ''user:1''
       = Some \<lparr>updatedAt = 1, pool_fields = fs\<rparr>
     \<and> map_of fs ''name'' = Some (PScalar (SStr ''Alice''))
     \<and> map_of fs ''age'' = Some (PScalar (SNum 30))"
    by (simp add: time_def map_add_def)
  with obj ident show ?thesis by blast
qed

section \<open>Termination of a read\<close>

text \<open>
  Claim C7. Every \<^verbatim>\<open>read\<close> terminates, also when stored entities refer to each other in a
  cycle. Every call of the resolver (the five functions of the read path are one mutual
  recursion) lies in the accessible part of the recursion's call relation: no chain of
  nested calls that starts from it is infinite. The mechanism is the one the claim names:
  a ref that the cache of the call already holds is answered with its shared accumulator
  and the cache is left alone; a ref met for the first time is entered in the cache with
  an empty accumulator before the loop over its fields starts.
\<close>

theorem read_terminates:
  "resolveValue_resolveArray_resolveObject_resolvePoolObject_resolveFields_dom
     (Inr (Inr (Inl (backing pool, ref, Map.empty))))
   \<and> resolveValue_resolveArray_resolveObject_resolvePoolObject_resolveFields_dom
       (call :: 'n resolve_call)
   \<and> (st r \<noteq> None \<longrightarrow> resolvePoolObject b r st = (RShared r, st))
   \<and> (st r = None \<and> map_of b r = Some po \<longrightarrow>
        resolvePoolObject b r st
          = (RShared r, resolveFields b r (pool_fields po) (st(r \<mapsto> []))))"
proof -
  have total: "resolveValue_resolveArray_resolveObject_resolvePoolObject_resolveFields_dom c"
    for c :: "'m resolve_call"
    using resolve_total by (rule spec)
  show ?thesis by (simp add: total)
qed

text \<open>
  The witness: \<open>user:1\<close> and \<open>user:2\<close> name each other as friend. The read of \<open>user:1\<close>
  returns; in its arena the friend of \<open>user:1\<close> is the accumulator of \<open>user:2\<close>, whose
  friend is the accumulator of \<open>user:1\<close> again.
\<close>

theorem read_terminates_witness:
  "map_of [(''user:1'', \<lparr>updatedAt = 0, pool_fields = [(''friend'', PoolReference ''user:2'')]\<rparr>),
           (''user:2'', \<lparr>updatedAt = 1, pool_fields = [(''friend'', PoolReference ''user:1'' :: nat PoolAny)]\<rparr>)]
      ''user:1''
     = Some \<lparr>updatedAt = 0, pool_fields = [(''friend'', PoolReference ''user:2'')]\<rparr>
   \<and> fst (resolvePoolObject
        [(''user:1'', \<lparr>updatedAt = 0, pool_fields = [(''friend'', PoolReference ''user:2'')]\<rparr>),
         (''user:2'', \<lparr>updatedAt = 1, pool_fields = [(''friend'', PoolReference ''user:1'' :: nat PoolAny)]\<rparr>)]
        ''user:1'' Map.empty) = RShared ''user:1''
   \<and> snd (resolvePoolObject
        [(''user:1'', \<lparr>updatedAt = 0, pool_fields = [(''friend'', PoolReference ''user:2'')]\<rparr>),
         (''user:2'', \<lparr>updatedAt = 1, pool_fields = [(''friend'', PoolReference ''user:1'' :: nat PoolAny)]\<rparr>)]
        ''user:1'' Map.empty) ''user:1'' = Some [(''friend'', RShared ''user:2'')]
   \<and> snd (resolvePoolObject
        [(''user:1'', \<lparr>updatedAt = 0, pool_fields = [(''friend'', PoolReference ''user:2'')]\<rparr>),
         (''user:2'', \<lparr>updatedAt = 1, pool_fields = [(''friend'', PoolReference ''user:1'' :: nat PoolAny)]\<rparr>)]
        ''user:1'' Map.empty) ''user:2'' = Some [(''friend'', RShared ''user:1'')]"
proof -
  let ?po = "\<lparr>updatedAt = 0, pool_fields = [(''friend'', PoolReference ''user:2'' :: nat PoolAny)]\<rparr>"
  let ?b = "[(''user:1'', ?po),
             (''user:2'', \<lparr>updatedAt = 1, pool_fields = [(''friend'', PoolReference ''user:1'')]\<rparr>)]"
  have stored: "map_of ?b ''user:1'' = Some ?po" by simp
  have unseen: "(Map.empty :: nat stack) ''user:1'' = None" by simp
  from unseen stored have hyp: "(Map.empty :: nat stack) ''user:1'' = None \<and> map_of ?b ''user:1'' = Some ?po"
    by (intro conjI)
  from read_terminates [of _ _ _ Map.empty "''user:1''" ?b ?po,
      THEN conjunct2, THEN conjunct2, THEN conjunct2, rule_format, OF hyp]
  have "resolvePoolObject ?b ''user:1'' Map.empty
      = (RShared ''user:1'', resolveFields ?b ''user:1'' (pool_fields ?po) [''user:1'' \<mapsto> []])" .
  then have r: "resolvePoolObject ?b ''user:1'' Map.empty
      = (RShared ''user:1'',
         [''user:1'' \<mapsto> [(''friend'', RShared ''user:2'')],
          ''user:2'' \<mapsto> [(''friend'', RShared ''user:1'')]])"
    by (simp add: PoolReference_def ref_of_def REF_LABEL_def assign_def fun_upd_twist)
  from stored r show ?thesis by simp
qed

section \<open>The notification pass\<close>

lemma resolvePoolObject_null:
  assumes "dom st \<subseteq> fst ` set b"
  shows "fst (resolvePoolObject b ref st)
           = (if map_of b ref = None then RScalar SNull else RShared ref)"
proof (cases "st ref")
  case None
  then show ?thesis by (cases "map_of b ref") simp_all
next
  case (Some acc)
  then have "ref \<in> dom st" by blast
  with assms have "ref \<in> fst ` set b" by (rule subsetD)
  then have "map_of b ref \<noteq> None" by (simp add: map_of_eq_None_iff)
  with Some show ?thesis by simp
qed

lemma notify_loop_trace:
  "dom acc \<subseteq> fst ` set b
   \<Longrightarrow> fst (notify_loop b ls refs acc) = concat (map (expected_events b ls) refs)"
proof (induction refs arbitrary: acc)
  case Nil
  show ?case by simp
next
  case (Cons ref refs)
  show ?case
  proof (cases "ls ref")
    case None
    with Cons show ?thesis by (simp add: expected_events_def)
  next
    case (Some fns)
    show ?thesis
    proof (cases "fns = []")
      case True
      with Some Cons show ?thesis by (simp add: expected_events_def)
    next
      case False
      obtain val acc' where r: "resolvePoolObject b ref acc = (val, acc')" by force
      from resolvePoolObject_dom[of b ref acc] r have "dom acc' \<subseteq> dom acc \<union> fst ` set b" by simp
      with Cons.prems have "dom acc' \<subseteq> fst ` set b" by blast
      from Cons.IH[OF this]
      have rest: "fst (notify_loop b ls refs acc') = concat (map (expected_events b ls) refs)" .
      from resolvePoolObject_null[OF Cons.prems, of ref] r
      have v: "val = (if map_of b ref = None then RScalar SNull else RShared ref)" by simp
      obtain evs acc'' where n: "notify_loop b ls refs acc' = (evs, acc'')" by force
      with rest have e: "evs = concat (map (expected_events b ls) refs)" by simp
      from Some False have head: "expected_events b ls ref
          = Resolve ref # (if map_of b ref = None then []
                           else map (\<lambda>fn. Invoke fn (RShared ref)) fns)"
        by (simp add: expected_events_def)
      from Some False r v n have "fst (notify_loop b ls (ref # refs) acc)
          = (Resolve ref # (if map_of b ref = None then []
                            else map (\<lambda>fn. Invoke fn (RShared ref)) fns)) @ evs"
        by (simp del: resolvePoolObject.simps)
      with head e show ?thesis by simp
    qed
  qed
qed

lemma notify_loop_cache:
  "snd (notify_loop b ls refs acc)
     = fold (\<lambda>ref acc. snd (resolvePoolObject b ref acc)) (filter (listened ls) refs) acc"
proof (induction refs arbitrary: acc)
  case Nil
  show ?case by simp
next
  case (Cons ref refs)
  show ?case
  proof (cases "ls ref")
    case None
    with Cons show ?thesis by (simp add: listened_def)
  next
    case (Some fns)
    show ?thesis
    proof (cases "fns = []")
      case True
      with Some Cons show ?thesis by (simp add: listened_def)
    next
      case False
      obtain val acc' where r: "resolvePoolObject b ref acc = (val, acc')" by force
      obtain evs acc'' where n: "notify_loop b ls refs acc' = (evs, acc'')" by force
      from Some False have l: "listened ls ref" by (simp add: listened_def)
      from Some False r n have "snd (notify_loop b ls (ref # refs) acc) = acc''"
        by (simp del: resolvePoolObject.simps)
      moreover from Cons[of acc'] n have "acc''
          = fold (\<lambda>ref acc. snd (resolvePoolObject b ref acc)) (filter (listened ls) refs) acc'"
        by simp
      ultimately show ?thesis using l r by (simp del: resolvePoolObject.simps)
    qed
  qed
qed

lemma count_expected_events:
  "count_list (expected_events b ls r) (Resolve ref) = (if r = ref \<and> listened ls r then 1 else 0)"
proof -
  have "count_list (map (\<lambda>fn. Invoke fn v) fns) (Resolve ref) = 0" for fns :: "nat list" and v :: "'a Resolved"
    by (induction fns) simp_all
  then show ?thesis
    by (auto simp: expected_events_def listened_def split: option.splits)
qed

lemma count_resolutions:
  "distinct refs
   \<Longrightarrow> count_list (concat (map (expected_events b ls) refs)) (Resolve ref)
       = (if ref \<in> set refs \<and> listened ls ref then 1 else 0)"
  by (induction refs) (auto simp: count_expected_events)

text \<open>The set of touched refs holds each ref once.\<close>

lemma distinct_set_add: "distinct xs \<Longrightarrow> distinct (set_add x xs)"
  by (simp add: set_add_def)

lemma update_references_distinct:
  "distinct (references w) \<Longrightarrow> distinct (references (snd (updateValue tostr h t v w)))"
  "distinct (references w) \<Longrightarrow> distinct (references (snd (updateArray tostr h t xs w)))"
  "distinct (references w) \<Longrightarrow> distinct (references (snd (updateObject tostr h t kvs acc w)))"
  "distinct (references w) \<Longrightarrow> distinct (references (snd (updatePoolObject tostr h t data ref w)))"
proof (induction tostr h t v w and tostr h t xs w and tostr h t kvs acc w and tostr h t data ref w
    rule: updateValue_updateArray_updateObject_updatePoolObject.induct)
  case (1 tostr h t s w)
  then show ?case by simp
next
  case (2 tostr h t a w)
  let ?w1 = "w\<lparr>visited := insert a (visited w)\<rparr>"
  from 2(4) have d: "distinct (references ?w1)" by simp
  show ?case
  proof (cases "a \<in> visited w")
    case True
    with 2(4) show ?thesis by simp
  next
    case False
    show ?thesis
    proof (cases "node_at h a")
      case (JArray xs)
      from 2(1)[OF False JArray d] False JArray show ?thesis
        by (cases "updateArray tostr h t xs ?w1") (auto split: sum.splits)
    next
      case (JObject kvs)
      show ?thesis
      proof (cases "identify tostr kvs")
        case None
        from 2(2)[OF False JObject None d] False JObject None show ?thesis
          by (cases "updateObject tostr h t kvs [] ?w1") (auto split: sum.splits)
      next
        case (Some ref)
        from 2(3)[OF False JObject Some d] False JObject Some show ?thesis by simp
      qed
    qed
  qed
next
  case (3 tostr h t w)
  then show ?case by simp
next
  case (4 tostr h t x xs w)
  obtain r w' where r: "updateValue tostr h t x w = (r, w')" by force
  from 4(1)[OF 4(3)] r have d: "distinct (references w')" by simp
  show ?case
  proof (cases r)
    case (Inl e)
    with r d show ?thesis by simp
  next
    case (Inr y)
    from 4(2)[OF r[symmetric] Inr d] r Inr show ?thesis
      by (cases "updateArray tostr h t xs w'") (auto split: sum.splits)
  qed
next
  case (5 tostr h t acc w)
  then show ?case by simp
next
  case (6 tostr h t k v kvs acc w)
  obtain r w' where r: "updateValue tostr h t v w = (r, w')" by force
  from 6(1)[OF 6(3)] r have d: "distinct (references w')" by simp
  show ?case
  proof (cases r)
    case (Inl e)
    with r d show ?thesis by simp
  next
    case (Inr y)
    from 6(2)[OF r[symmetric] Inr d] r Inr show ?thesis by simp
  qed
next
  case (7 tostr h t data ref w)
  let ?w1 = "w\<lparr>references := set_add ref (references w)\<rparr>"
  from 7(2) have "distinct (references ?w1)" by (simp add: distinct_set_add)
  from 7(1)[OF this] show ?case
    by (cases "updateObject tostr h t data [] ?w1") (auto split: sum.splits)
qed

lemma updateItems_references_distinct:
  "distinct (references w) \<Longrightarrow> distinct (references (snd (updateItems tostr h t items w)))"
proof (induction items arbitrary: w)
  case Nil
  then show ?case by simp
next
  case (Cons item items)
  obtain r w' where r: "updateValue tostr h t item w = (r, w')" by force
  from update_references_distinct(1)[OF Cons.prems, of tostr h t item] r
  have d: "distinct (references w')" by simp
  show ?case
  proof (cases r)
    case (Inl e)
    with r d show ?thesis by simp
  next
    case (Inr y)
    with Cons.IH[OF d] r show ?thesis by simp
  qed
qed

lemma distinct_touched: "distinct (touched tostr h items pool)"
  unfolding touched_def by (rule updateItems_references_distinct) simp

lemma write_returns:
  assumes "fst (write_batch tostr h items pool) = None"
  shows "fst (snd (write_batch tostr h items pool))
           = notify (snd (snd (write_batch tostr h items pool))) (touched tostr h items pool)"
    and "listeners (snd (snd (write_batch tostr h items pool))) = listeners pool"
  using assms
  by (auto simp: write_batch_def touched_def Let_def split: prod.splits option.splits)

text \<open>
  Claim C9. The notification pass after a write batch that returned: the touched refs are
  taken one by one, each once. A touched ref without listeners (no entry in the registry,
  or an empty one) is not resolved. A touched ref with listeners is resolved exactly
  once, and each of its listeners is then called with the resolved entity, in the order
  of registration, unless the resolution gave null, in which case no listener is called.
  All resolutions of the pass share one cache: each starts from the cache that the
  previous one left.
\<close>

theorem notify_after_write:
  assumes "fst (write_batch tostr h items pool) = None"
  shows "distinct (touched tostr h items pool)
     \<and> fst (snd (write_batch tostr h items pool))
         = concat (map (expected_events (backing (snd (snd (write_batch tostr h items pool))))
                                        (listeners pool))
                       (touched tostr h items pool))
     \<and> count_list (fst (snd (write_batch tostr h items pool))) (Resolve ref)
         = (if ref \<in> set (touched tostr h items pool) \<and> listened (listeners pool) ref
            then 1 else 0)
     \<and> snd (notify_loop (backing (snd (snd (write_batch tostr h items pool)))) (listeners pool)
              (touched tostr h items pool) Map.empty)
         = fold (\<lambda>ref acc. snd (resolvePoolObject
                                   (backing (snd (snd (write_batch tostr h items pool)))) ref acc))
                (filter (listened (listeners pool)) (touched tostr h items pool)) Map.empty"
proof -
  let ?pool' = "snd (snd (write_batch tostr h items pool))"
  let ?refs = "touched tostr h items pool"
  note w = write_returns[OF assms]
  have d: "distinct ?refs" by (rule distinct_touched)
  have "dom (Map.empty :: 'a stack) \<subseteq> fst ` set (backing ?pool')" by simp
  from notify_loop_trace[OF this, of "listeners ?pool'" ?refs] w
  have t: "fst (snd (write_batch tostr h items pool))
      = concat (map (expected_events (backing ?pool') (listeners pool)) ?refs)"
    by (simp add: notify_def)
  from t count_resolutions[OF d, of "backing ?pool'" "listeners pool" ref]
  have c: "count_list (fst (snd (write_batch tostr h items pool))) (Resolve ref)
         = (if ref \<in> set ?refs \<and> listened (listeners pool) ref then 1 else 0)" by simp
  from d t c notify_loop_cache[of "backing ?pool'" "listeners pool" ?refs Map.empty]
  show ?thesis by blast
qed

text \<open>
  The witness: Alice and Bob are written in one batch; \<open>user:1\<close> has the listeners 7 and
  8, \<open>user:2\<close> has none.
\<close>

theorem notify_after_write_witness:
  "fst (write_batch nat_str
      [JObject [(''id'', JScalar (SNum 1)), (''__type'', JScalar (SStr ''user'')),
                (''name'', JScalar (SStr ''Alice''))],
       JObject [(''id'', JScalar (SNum 2)), (''__type'', JScalar (SStr ''user'')),
                (''name'', JScalar (SStr ''Bob''))]]
      [JNode 0, JNode 1]
      \<lparr>generation = 0, listeners = [''user:1'' \<mapsto> [7, 8]], backing = []\<rparr>) = None
   \<and> touched nat_str
      [JObject [(''id'', JScalar (SNum 1)), (''__type'', JScalar (SStr ''user'')),
                (''name'', JScalar (SStr ''Alice''))],
       JObject [(''id'', JScalar (SNum 2)), (''__type'', JScalar (SStr ''user'')),
                (''name'', JScalar (SStr ''Bob''))]]
      [JNode 0, JNode 1]
      \<lparr>generation = 0, listeners = [''user:1'' \<mapsto> [7, 8]], backing = []\<rparr>
       = [''user:1'', ''user:2'']
   \<and> fst (snd (write_batch nat_str
      [JObject [(''id'', JScalar (SNum 1)), (''__type'', JScalar (SStr ''user'')),
                (''name'', JScalar (SStr ''Alice''))],
       JObject [(''id'', JScalar (SNum 2)), (''__type'', JScalar (SStr ''user'')),
                (''name'', JScalar (SStr ''Bob''))]]
      [JNode 0, JNode 1]
      \<lparr>generation = 0, listeners = [''user:1'' \<mapsto> [7, 8]], backing = []\<rparr>))
       = [Resolve ''user:1'', Invoke 7 (RShared ''user:1''), Invoke 8 (RShared ''user:1'')
          :: nat event]"
proof -
  let ?h = "[JObject [(''id'', JScalar (SNum (1::nat))), (''__type'', JScalar (SStr ''user'')),
                (''name'', JScalar (SStr ''Alice''))],
       JObject [(''id'', JScalar (SNum 2)), (''__type'', JScalar (SStr ''user'')),
                (''name'', JScalar (SStr ''Bob''))]]"
  let ?pool = "\<lparr>generation = 0, listeners = [''user:1'' \<mapsto> [7, 8]], backing = []\<rparr> :: nat ObjectPool"
  have ok: "fst (write_batch nat_str ?h [JNode 0, JNode 1] ?pool) = None"
    by (simp add: write_batch_def time_def node_at_def identify_def TYPE_LABEL_def Let_def)
  have tc: "touched nat_str ?h [JNode 0, JNode 1] ?pool = [''user:1'', ''user:2'']"
    by (simp add: touched_def time_def node_at_def identify_def TYPE_LABEL_def set_add_def)
  have bk: "map_of (backing (snd (snd (write_batch nat_str ?h [JNode 0, JNode 1] ?pool)))) ''user:1'' \<noteq> None"
    by (simp add: write_batch_def time_def node_at_def identify_def TYPE_LABEL_def Let_def
        set_add_def spread_def)
  from notify_after_write [OF ok, of "''user:1''"]
  have "fst (snd (write_batch nat_str ?h [JNode 0, JNode 1] ?pool))
      = concat (map (expected_events (backing (snd (snd (write_batch nat_str ?h [JNode 0, JNode 1] ?pool))))
                       (listeners ?pool))
                    (touched nat_str ?h [JNode 0, JNode 1] ?pool))"
    by blast
  with tc bk have "fst (snd (write_batch nat_str ?h [JNode 0, JNode 1] ?pool))
      = [Resolve ''user:1'', Invoke 7 (RShared ''user:1''), Invoke 8 (RShared ''user:1'')]"
    by (simp add: expected_events_def)
  with ok tc show ?thesis by blast
qed

section \<open>Cycle rejection\<close>

lemma update_visited_mono:
  fixes w :: "'a walk"
  shows "visited w \<subseteq> visited (snd (updateValue tostr h t v w))"
  "visited w \<subseteq> visited (snd (updateArray tostr h t xs w))"
  "visited w \<subseteq> visited (snd (updateObject tostr h t kvs acc w))"
  "visited w \<subseteq> visited (snd (updatePoolObject tostr h t data ref w))"
proof -
  have total: "updateValue_updateArray_updateObject_updatePoolObject_dom c"
    for c :: "'a update_call"
    using update_total by (rule spec)
  show "visited w \<subseteq> visited (snd (updateValue tostr h t v w))"
    by (rule update_visited_mono_partial(1)[OF total])
  show "visited w \<subseteq> visited (snd (updateArray tostr h t xs w))"
    by (rule update_visited_mono_partial(2)[OF total])
  show "visited w \<subseteq> visited (snd (updateObject tostr h t kvs acc w))"
    by (rule update_visited_mono_partial(3)[OF total])
  show "visited w \<subseteq> visited (snd (updatePoolObject tostr h t data ref w))"
    by (rule update_visited_mono_partial(4)[OF total])
qed

lemma fresh_paths_scalar: "fresh_paths (walk_path h (JScalar s)) V V"
proof -
  have "walk_path h (JScalar s) p \<noteq> Some (JNode a)" for p a
    by (cases p) simp_all
  then show ?thesis by (simp add: fresh_paths_def)
qed

lemma fresh_paths_nil: "fresh_paths (batch_path h []) V V"
proof -
  have "batch_path h [] p = None" for p
    by (cases p) simp_all
  then show ?thesis by (simp add: fresh_paths_def)
qed

lemma walk_path_children:
  "walk_path h v (i # p) = batch_path h (children h v) (i # p)"
  by simp

text \<open>
  A node that is visited for the first time, and whose children are walked afterwards
  along fresh paths, is itself reached along fresh paths: the empty path leads to the
  node, every other path leads below it.
\<close>

lemma fresh_paths_node:
  assumes new: "a \<notin> V"
    and sub: "insert a V \<subseteq> V'"
    and below: "fresh_paths (batch_path h (children h (JNode a))) (insert a V) V'"
  shows "fresh_paths (walk_path h (JNode a)) V V'"
proof -
  let ?cs = "children h (JNode a)"
  from below have b1: "\<And>p c. batch_path h ?cs p = Some (JNode c) \<Longrightarrow> c \<in> V' \<and> c \<notin> insert a V"
    and b2: "\<And>p q c. batch_path h ?cs p = Some (JNode c) \<Longrightarrow> batch_path h ?cs q = Some (JNode c) \<Longrightarrow> p = q"
    unfolding fresh_paths_def by blast+
  have reach: "c \<in> V' \<and> c \<notin> V \<and> (p \<noteq> [] \<longrightarrow> c \<noteq> a)"
    if "walk_path h (JNode a) p = Some (JNode c)" for p c
  proof (cases p)
    case Nil
    with that new sub show ?thesis by auto
  next
    case (Cons i p')
    with that have "batch_path h ?cs (i # p') = Some (JNode c)"
      by (simp only: walk_path_children)
    from b1[OF this] Cons show ?thesis by auto
  qed
  have inj: "p = q"
    if p: "walk_path h (JNode a) p = Some (JNode c)" and q: "walk_path h (JNode a) q = Some (JNode c)"
    for p q c
  proof (cases p)
    case Nil
    with p have ca: "c = a" by simp
    show ?thesis
    proof (cases q)
      case Nil
      with \<open>p = []\<close> show ?thesis by simp
    next
      case (Cons j q')
      with reach[OF q] ca show ?thesis by simp
    qed
  next
    case (Cons i p')
    with reach[OF p] have na: "c \<noteq> a" by simp
    show ?thesis
    proof (cases q)
      case Nil
      with q na show ?thesis by simp
    next
      case (Cons j q')
      from p \<open>p = i # p'\<close> have "batch_path h ?cs (i # p') = Some (JNode c)"
        by (simp only: walk_path_children)
      moreover from q Cons have "batch_path h ?cs (j # q') = Some (JNode c)"
        by (simp only: walk_path_children)
      ultimately have "i # p' = j # q'" by (rule b2)
      with \<open>p = i # p'\<close> Cons show ?thesis by simp
    qed
  qed
  from reach inj show ?thesis unfolding fresh_paths_def by blast
qed

text \<open>
  The paths into a list split into the paths into its head and the paths into its tail;
  what the head visited is visited when the tail is walked.
\<close>

lemma fresh_paths_cons:
  assumes hd: "fresh_paths (walk_path h x) V V1"
    and tl: "fresh_paths (batch_path h xs) V1 V'"
    and s1: "V \<subseteq> V1"
    and s2: "V1 \<subseteq> V'"
  shows "fresh_paths (batch_path h (x # xs)) V V'"
proof -
  from hd have h1: "\<And>p c. walk_path h x p = Some (JNode c) \<Longrightarrow> c \<in> V1 \<and> c \<notin> V"
    and h2: "\<And>p q c. walk_path h x p = Some (JNode c) \<Longrightarrow> walk_path h x q = Some (JNode c) \<Longrightarrow> p = q"
    unfolding fresh_paths_def by blast+
  from tl have t1: "\<And>p c. batch_path h xs p = Some (JNode c) \<Longrightarrow> c \<in> V' \<and> c \<notin> V1"
    and t2: "\<And>p q c. batch_path h xs p = Some (JNode c) \<Longrightarrow> batch_path h xs q = Some (JNode c) \<Longrightarrow> p = q"
    unfolding fresh_paths_def by blast+
  have split: "(\<exists>p'. p = 0 # p' \<and> walk_path h x p' = Some (JNode c))
      \<or> (\<exists>i p'. p = Suc i # p' \<and> batch_path h xs (i # p') = Some (JNode c))"
    if "batch_path h (x # xs) p = Some (JNode c)" for p c
  proof (cases p)
    case Nil
    with that show ?thesis by simp
  next
    case (Cons i p')
    with that show ?thesis by (cases i) (simp_all split: if_splits)
  qed
  have reach: "c \<in> V' \<and> c \<notin> V" if "batch_path h (x # xs) p = Some (JNode c)" for p c
    using split[OF that] h1 t1 s1 s2 by blast
  have inj: "p = q"
    if p: "batch_path h (x # xs) p = Some (JNode c)" and q: "batch_path h (x # xs) q = Some (JNode c)"
    for p q c
  proof -
    from split[OF p] show ?thesis
    proof (elim disjE exE conjE)
      fix p' assume p0: "p = 0 # p'" and wp: "walk_path h x p' = Some (JNode c)"
      from split[OF q] show ?thesis
      proof (elim disjE exE conjE)
        fix q' assume "q = 0 # q'" and "walk_path h x q' = Some (JNode c)"
        with p0 h2[OF wp] show ?thesis by simp
      next
        fix j q' assume "q = Suc j # q'" and "batch_path h xs (j # q') = Some (JNode c)"
        with t1 h1[OF wp] show ?thesis by blast
      qed
    next
      fix i p' assume pS: "p = Suc i # p'" and bp: "batch_path h xs (i # p') = Some (JNode c)"
      from split[OF q] show ?thesis
      proof (elim disjE exE conjE)
        fix q' assume "q = 0 # q'" and "walk_path h x q' = Some (JNode c)"
        with h1 t1[OF bp] show ?thesis by blast
      next
        fix j q' assume qS: "q = Suc j # q'" and bq: "batch_path h xs (j # q') = Some (JNode c)"
        from t2[OF bp bq] pS qS show ?thesis by simp
      qed
    qed
  qed
  from reach inj show ?thesis unfolding fresh_paths_def by blast
qed

text \<open>
  A walk that returns has visited every node below its start exactly once: the paths from
  the start are fresh between the visited set before and the visited set after.
\<close>

lemma update_fresh_paths:
  "fst (updateValue tostr h t v w) = Inr y
     \<Longrightarrow> fresh_paths (walk_path h v) (visited w) (visited (snd (updateValue tostr h t v w)))"
  "fst (updateArray tostr h t xs w) = Inr ys
     \<Longrightarrow> fresh_paths (batch_path h xs) (visited w) (visited (snd (updateArray tostr h t xs w)))"
  "fst (updateObject tostr h t kvs acc w) = Inr new
     \<Longrightarrow> fresh_paths (batch_path h (map snd kvs)) (visited w)
           (visited (snd (updateObject tostr h t kvs acc w)))"
  "fst (updatePoolObject tostr h t data ref w) = Inr m
     \<Longrightarrow> fresh_paths (batch_path h (map snd data)) (visited w)
           (visited (snd (updatePoolObject tostr h t data ref w)))"
proof (induction tostr h t v w and tostr h t xs w and tostr h t kvs acc w and tostr h t data ref w
    arbitrary: y and ys and new and m
    rule: updateValue_updateArray_updateObject_updatePoolObject.induct)
  case (1 tostr h t s w)
  show ?case by (simp add: fresh_paths_scalar)
next
  case (2 tostr h t a w)
  let ?w1 = "w\<lparr>visited := insert a (visited w)\<rparr>"
  from 2(4) have new: "a \<notin> visited w" by (simp split: if_splits)
  show ?case
  proof (cases "node_at h a")
    case (JArray xs)
    obtain r w' where r: "updateArray tostr h t xs ?w1 = (r, w')" by force
    with 2(4) new JArray obtain ys where ys: "r = Inr ys" by (cases r) simp_all
    from update_visited_mono(2)[of ?w1 tostr h t xs] r have sub: "insert a (visited w) \<subseteq> visited w'"
      by simp
    from 2(1)[OF new JArray, of ys] r ys
    have "fresh_paths (batch_path h xs) (insert a (visited w)) (visited w')" by simp
    with JArray have "fresh_paths (batch_path h (children h (JNode a))) (insert a (visited w)) (visited w')"
      by simp
    from fresh_paths_node[OF new sub this] new JArray r ys show ?thesis by simp
  next
    case (JObject kvs)
    show ?thesis
    proof (cases "identify tostr kvs")
      case None
      obtain r w' where r: "updateObject tostr h t kvs [] ?w1 = (r, w')" by force
      with 2(4) new JObject None obtain acc where acc: "r = Inr acc" by (cases r) simp_all
      from update_visited_mono(3)[of ?w1 tostr h t kvs "[]"] r
      have sub: "insert a (visited w) \<subseteq> visited w'" by simp
      from 2(2)[OF new JObject None, of acc] r acc
      have "fresh_paths (batch_path h (map snd kvs)) (insert a (visited w)) (visited w')" by simp
      with JObject
      have "fresh_paths (batch_path h (children h (JNode a))) (insert a (visited w)) (visited w')"
        by simp
      from fresh_paths_node[OF new sub this] new JObject None r acc show ?thesis by simp
    next
      case (Some ref)
      obtain r w' where r: "updatePoolObject tostr h t kvs ref ?w1 = (r, w')" by force
      with 2(4) new JObject Some have ry: "r = Inr y" by simp
      from update_visited_mono(4)[of ?w1 tostr h t kvs ref] r
      have sub: "insert a (visited w) \<subseteq> visited w'" by simp
      from 2(3)[OF new JObject Some, of y] r ry
      have "fresh_paths (batch_path h (map snd kvs)) (insert a (visited w)) (visited w')" by simp
      with JObject
      have "fresh_paths (batch_path h (children h (JNode a))) (insert a (visited w)) (visited w')"
        by simp
      from fresh_paths_node[OF new sub this] new JObject Some r show ?thesis by simp
    qed
  qed
next
  case (3 tostr h t w)
  show ?case by (simp add: fresh_paths_nil)
next
  case (4 tostr h t x xs w)
  obtain r w1 where r: "updateValue tostr h t x w = (r, w1)" by force
  with 4(3) obtain y where y: "r = Inr y" by (cases r) simp_all
  obtain r2 w' where r2: "updateArray tostr h t xs w1 = (r2, w')" by force
  with 4(3) r y obtain ys' where ys': "r2 = Inr ys'" by (cases r2) simp_all
  from 4(1)[of y] r y have hd: "fresh_paths (walk_path h x) (visited w) (visited w1)" by simp
  from 4(2)[OF r[symmetric] y, of ys'] r2 ys'
  have tl: "fresh_paths (batch_path h xs) (visited w1) (visited w')" by simp
  from update_visited_mono(1)[of w tostr h t x] r have s1: "visited w \<subseteq> visited w1" by simp
  from update_visited_mono(2)[of w1 tostr h t xs] r2 have s2: "visited w1 \<subseteq> visited w'" by simp
  from fresh_paths_cons[OF hd tl s1 s2] r y r2 ys' show ?case by simp
next
  case (5 tostr h t acc w)
  show ?case by (simp add: fresh_paths_nil)
next
  case (6 tostr h t k v kvs acc w)
  obtain r w1 where r: "updateValue tostr h t v w = (r, w1)" by force
  with 6(3) obtain y where y: "r = Inr y" by (cases r) simp_all
  let ?acc1 = "AList.update k y acc"
  obtain r2 w' where r2: "updateObject tostr h t kvs ?acc1 w1 = (r2, w')" by force
  with 6(3) r y have new: "r2 = Inr new" by simp
  from 6(1)[of y] r y have hd: "fresh_paths (walk_path h v) (visited w) (visited w1)" by simp
  from 6(2)[OF r[symmetric] y, of new] r2 new
  have tl: "fresh_paths (batch_path h (map snd kvs)) (visited w1) (visited w')" by simp
  from update_visited_mono(1)[of w tostr h t v] r have s1: "visited w \<subseteq> visited w1" by simp
  from update_visited_mono(3)[of w1 tostr h t kvs ?acc1] r2 have s2: "visited w1 \<subseteq> visited w'"
    by simp
  from fresh_paths_cons[OF hd tl s1 s2] r y r2 show ?case by simp
next
  case (7 tostr h t data ref w)
  let ?w1 = "w\<lparr>references := set_add ref (references w)\<rparr>"
  obtain r w' where r: "updateObject tostr h t data [] ?w1 = (r, w')" by force
  with 7(2) obtain new where new: "r = Inr new" by (cases r) simp_all
  from 7(1)[of new] r new
  have "fresh_paths (batch_path h (map snd data)) (visited w) (visited w')" by simp
  with r new show ?case by simp
qed

lemma updateItems_visited_mono:
  "visited w \<subseteq> visited (snd (updateItems tostr h t items w))"
proof (induction items arbitrary: w)
  case Nil
  show ?case by simp
next
  case (Cons item items)
  obtain r w1 where r: "updateValue tostr h t item w = (r, w1)" by force
  from update_visited_mono(1)[of w tostr h t item] r have s1: "visited w \<subseteq> visited w1" by simp
  show ?case
  proof (cases r)
    case (Inl e)
    with r s1 show ?thesis by simp
  next
    case (Inr y)
    from s1 Cons.IH[of w1] have "visited w \<subseteq> visited (snd (updateItems tostr h t items w1))"
      by (rule order_trans)
    with r Inr show ?thesis by simp
  qed
qed

lemma updateItems_fresh_paths:
  "fst (updateItems tostr h t items w) = None
   \<Longrightarrow> fresh_paths (batch_path h items) (visited w)
         (visited (snd (updateItems tostr h t items w)))"
proof (induction items arbitrary: w)
  case Nil
  show ?case by (simp add: fresh_paths_nil)
next
  case (Cons item items)
  obtain r w1 where r: "updateValue tostr h t item w = (r, w1)" by force
  with Cons.prems obtain y where y: "r = Inr y" by (cases r) simp_all
  from update_fresh_paths(1)[of tostr h t item w y] r y
  have hd: "fresh_paths (walk_path h item) (visited w) (visited w1)" by simp
  from Cons.prems r y have "fst (updateItems tostr h t items w1) = None" by simp
  from Cons.IH[OF this]
  have tl: "fresh_paths (batch_path h items) (visited w1)
      (visited (snd (updateItems tostr h t items w1)))" .
  from update_visited_mono(1)[of w tostr h t item] r have s1: "visited w \<subseteq> visited w1" by simp
  have s2: "visited w1 \<subseteq> visited (snd (updateItems tostr h t items w1))"
    by (rule updateItems_visited_mono)
  from fresh_paths_cons[OF hd tl s1 s2] r y show ?case by simp
qed

text \<open>
  Claim C3. When one raw input node is reachable twice within one \<^verbatim>\<open>write\<close> call, that is,
  when two different paths of the batch lead to the same node, \<^verbatim>\<open>write\<close> throws the cyclic
  reference error. An object that contains itself is the case where one path extends the
  other; a sub-object shared by two places of the batch is the case of two paths that part
  ways.
\<close>

theorem cycle_rejected:
  assumes "p \<noteq> q"
    and "batch_path h items p = Some (JNode a)"
    and "batch_path h items q = Some (JNode a)"
  shows "fst (write_batch tostr h items pool) = Some CyclicReference"
proof -
  let ?w0 = "\<lparr>visited = {}, references = [], store = backing pool\<rparr>"
  have "fst (updateItems tostr h (time pool) items ?w0) \<noteq> None"
  proof
    assume "fst (updateItems tostr h (time pool) items ?w0) = None"
    then have "fresh_paths (batch_path h items) (visited ?w0)
        (visited (snd (updateItems tostr h (time pool) items ?w0)))"
      by (rule updateItems_fresh_paths)
    with assms(2,3) have "p = q" unfolding fresh_paths_def by blast
    with assms(1) show False by simp
  qed
  then obtain e where e: "fst (updateItems tostr h (time pool) items ?w0) = Some e" by blast
  have "e = CyclicReference" by (cases e) simp
  with e show ?thesis
    by (cases "updateItems tostr h (time pool) items ?w0") (simp add: write_batch_def)
qed

text \<open>
  The witnesses: an object that holds itself in a field; an object whose fields \<open>left\<close> and
  \<open>right\<close> hold the same sub-object; a batch that names the same object twice.
\<close>

theorem cycle_rejected_witness:
  "batch_path [JObject [(''self'', JNode 0)]] [JNode 0] [0] = Some (JNode 0 :: nat JSONValue)
   \<and> batch_path [JObject [(''self'', JNode 0)]] [JNode 0] [0, 0] = Some (JNode 0 :: nat JSONValue)
   \<and> fst (write_batch nat_str [JObject [(''self'', JNode 0)]] [JNode 0] new_pool)
       = Some CyclicReference
   \<and> batch_path [JObject [(''name'', JScalar (SStr ''shared''))],
                  JObject [(''left'', JNode 0), (''right'', JNode 0)]] [JNode 1] [0, 0]
       = Some (JNode 0 :: nat JSONValue)
   \<and> batch_path [JObject [(''name'', JScalar (SStr ''shared''))],
                  JObject [(''left'', JNode 0), (''right'', JNode 0)]] [JNode 1] [0, 1]
       = Some (JNode 0 :: nat JSONValue)
   \<and> fst (write_batch nat_str
          [JObject [(''name'', JScalar (SStr ''shared''))],
           JObject [(''left'', JNode 0), (''right'', JNode 0)]] [JNode 1] new_pool)
       = Some CyclicReference
   \<and> fst (write_batch nat_str [JArray []] [JNode 0, JNode 0] new_pool)
       = Some CyclicReference"
proof -
  let ?h1 = "[JObject [(''self'', JNode 0)]] :: nat heap"
  let ?h2 = "[JObject [(''name'', JScalar (SStr ''shared''))],
              JObject [(''left'', JNode 0), (''right'', JNode 0)]] :: nat heap"
  let ?h3 = "[JArray []] :: nat heap"
  have a1: "batch_path ?h1 [JNode 0] [0] = Some (JNode 0)" by simp
  have a2: "batch_path ?h1 [JNode 0] [0, 0] = Some (JNode 0)" by (simp add: node_at_def)
  have a3: "[0] \<noteq> [0, 0::nat]" by simp
  have b1: "batch_path ?h2 [JNode 1] [0, 0] = Some (JNode 0)" by (simp add: node_at_def)
  have b2: "batch_path ?h2 [JNode 1] [0, 1] = Some (JNode 0)" by (simp add: node_at_def)
  have b3: "[0, 0] \<noteq> [0, 1::nat]" by simp
  have c1: "batch_path ?h3 [JNode 0, JNode 0] [0] = Some (JNode 0)" by simp
  have c2: "batch_path ?h3 [JNode 0, JNode 0] [1] = Some (JNode 0)" by simp
  have c3: "[0] \<noteq> [1::nat]" by simp
  from cycle_rejected [OF a3 a1 a2, of nat_str new_pool]
    cycle_rejected [OF b3 b1 b2, of nat_str new_pool]
    cycle_rejected [OF c3 c1 c2, of nat_str new_pool]
    a1 a2 b1 b2
  show ?thesis by blast
qed

end
